theory Spec2Isabelle
  imports Main "HOL-Library.AList" "HOL-Library.Sublist"
begin

section \<open>Python values used by the validator\<close>

text \<open>
  The validator (\<^verbatim>\<open>validators/dag_validator.py\<close>, class \<^verbatim>\<open>DAGValidator\<close>) reads a JSON
  specification as nested dicts and lists. A dict key can be absent, mapped to
  \<^verbatim>\<open>None\<close>, or mapped to a value; the code treats the three differently in places
  (\<^verbatim>\<open>field not in spec or spec[field] is None\<close>), so the model keeps them apart.
  Where a field is an \<open>option\<close>, \<open>None\<close> is the absent key.

  A Python \<^verbatim>\<open>str\<close> is a HOL \<open>string\<close> whose characters are read as the code points
  U+0000 .. U+00FF; \<open>length\<close> is then \<^verbatim>\<open>len\<close>.
\<close>

datatype 'a entry = Absent | Null | Present 'a

text \<open>\<^verbatim>\<open>d.get(key)\<close>: \<^verbatim>\<open>None\<close> for an absent key and for a key mapped to \<^verbatim>\<open>None\<close>.\<close>

fun entry_get :: "'a entry \<Rightarrow> 'a option" where
  "entry_get Absent = None"
| "entry_get Null = None"
| "entry_get (Present x) = Some x"

text \<open>\<^verbatim>\<open>d.get(key, [])\<close>: the default only replaces an absent key.\<close>

fun entry_get_default :: "'a entry \<Rightarrow> 'a \<Rightarrow> 'a option" where
  "entry_get_default Absent d = Some d"
| "entry_get_default Null d = None"
| "entry_get_default (Present x) d = Some x"

text \<open>\<^verbatim>\<open>key not in d or d[key] is None\<close>\<close>

fun absent_or_null :: "'a entry \<Rightarrow> bool" where
  "absent_or_null Absent = True"
| "absent_or_null Null = True"
| "absent_or_null (Present x) = False"

fun key_in :: "'a entry \<Rightarrow> bool" where
  "key_in Absent = False"
| "key_in Null = True"
| "key_in (Present x) = True"

text \<open>Truthiness of an optional string or list: \<^verbatim>\<open>None\<close> and the empty sequence are falsy.\<close>

fun truthy :: "'a list option \<Rightarrow> bool" where
  "truthy None = False"
| "truthy (Some xs) = (xs \<noteq> [])"

subsection \<open>String operations\<close>

definition quoted :: "string \<Rightarrow> string" where
  "quoted s = [CHR 0x22] @ s @ [CHR 0x22]"

definition digit_char :: "nat \<Rightarrow> char" where
  "digit_char d = char_of (48 + d)"

text \<open>\<^verbatim>\<open>str(n)\<close> for a non-negative integer.\<close>

fun str_nat :: "nat \<Rightarrow> string" where
  "str_nat n = (if n < 10 then [digit_char n] else str_nat (n div 10) @ [digit_char (n mod 10)])"

declare str_nat.simps [simp del]

text \<open>\<^verbatim>\<open>str.isspace\<close> on one character of the range U+0000 .. U+00FF.\<close>

definition py_isspace :: "char \<Rightarrow> bool" where
  "py_isspace c =
     (let n = (of_char c :: nat)
      in (9 \<le> n \<and> n \<le> 13) \<or> (28 \<le> n \<and> n \<le> 32) \<or> n = 133 \<or> n = 160)"

text \<open>\<^verbatim>\<open>str.strip()\<close>\<close>

definition py_strip :: "string \<Rightarrow> string" where
  "py_strip s = rev (dropWhile py_isspace (rev (dropWhile py_isspace s)))"

text \<open>\<^verbatim>\<open>str.lower()\<close> on U+0000 .. U+00FF: A-Z and the Latin-1 capitals move up by 32.\<close>

definition lower_char :: "char \<Rightarrow> char" where
  "lower_char c =
     (let n = (of_char c :: nat)
      in if (65 \<le> n \<and> n \<le> 90) \<or> (192 \<le> n \<and> n \<le> 222 \<and> n \<noteq> 215)
         then char_of (n + 32) else c)"

definition py_lower :: "string \<Rightarrow> string" where
  "py_lower s = map lower_char s"

text \<open>
  \<^verbatim>\<open>re.match(r'^[a-zA-Z0-9_-]+$', s)\<close>: one or more characters of the class, up to the
  end of the string or up to one final newline (\<^verbatim>\<open>$\<close> also matches just before it).
\<close>

definition id_char :: "char \<Rightarrow> bool" where
  "id_char c =
     (let n = (of_char c :: nat)
      in (97 \<le> n \<and> n \<le> 122) \<or> (65 \<le> n \<and> n \<le> 90) \<or> (48 \<le> n \<and> n \<le> 57)
         \<or> n = 95 \<or> n = 45)"

definition re_match_id :: "string \<Rightarrow> bool" where
  "re_match_id s =
     (let body = (if s \<noteq> [] \<and> last s = CHR 0x0A then butlast s else s)
      in body \<noteq> [] \<and> list_all id_char body)"

subsection \<open>Library functions taken as parameters\<close>

text \<open>
  Three functions of the Python standard library decide parts of the result and are not
  code of the validator; the model takes them as parameters:
  \<^item> \<^verbatim>\<open>ast.parse\<close> followed by \<^verbatim>\<open>ast.walk\<close>: the nodes of the parsed module in walk order,
    a \<^verbatim>\<open>SyntaxError\<close> (with \<^verbatim>\<open>lineno\<close>, \<^verbatim>\<open>msg\<close>, \<^verbatim>\<open>text\<close>), or another exception (with
    its \<^verbatim>\<open>str\<close>);
  \<^item> \<^verbatim>\<open>datetime.fromisoformat\<close>: whether it returns (True) or raises \<^verbatim>\<open>ValueError\<close>;
  \<^item> \<^verbatim>\<open>re.match(cron_pattern, s)\<close> for the cron pattern of \<^verbatim>\<open>_validate_schedule\<close>.

  The interpreter bounds the depth of the call stack and raises \<^verbatim>\<open>RecursionError\<close> beyond
  it. \<open>recursion_budget\<close> is the number of nested calls of the recursive function
  \<^verbatim>\<open>has_cycle\<close> that fit under that bound when \<^verbatim>\<open>validate_structure\<close> is called (the
  recursion limit less the frames already in use).
\<close>

datatype py_exception = RecursionError

datatype expr = Name string | OtherExpr

datatype ast_node =
    ImportFrom "string option" "string list"
  | Call expr
  | OtherNode

datatype parse_outcome =
    Parsed "ast_node list"
  | SyntaxError "nat option" string "string option"
  | OtherException string

record library =
  ast_parse :: "string \<Rightarrow> parse_outcome"
  fromisoformat :: "string \<Rightarrow> bool"
  cron_match :: "string \<Rightarrow> bool"
  recursion_budget :: nat

section \<open>Data model\<close>

type_synonym mapping = "(string \<times> string) list"

record task =
  task_id :: "string option"
  operator_type :: "string option"
  params :: "mapping option"
  parameters :: "mapping option"
  dependencies :: "string list option"

record connection =
  conn_id :: "string option"
  conn_type :: "string option"

record variable =
  var_key :: "string option"
  var_value :: "string option"

record dag_spec =
  dag_id :: "string entry"
  description :: "string entry"
  schedule :: "string entry"
  tasks :: "task list entry"
  start_date :: "string entry"
  catchup :: "bool option"
  tags :: "string list option"
  default_args :: "mapping option"
  connections :: "connection list option"
  variables :: "variable list option"

text \<open>
  A dict is falsy when it has no key at all. The record has the keys of the data model;
  the validator reads no other key.
\<close>

definition spec_is_empty :: "dag_spec \<Rightarrow> bool" where
  "spec_is_empty spec =
     (\<not> key_in (dag_id spec) \<and> \<not> key_in (description spec) \<and> \<not> key_in (schedule spec)
      \<and> \<not> key_in (tasks spec) \<and> \<not> key_in (start_date spec) \<and> catchup spec = None
      \<and> tags spec = None \<and> default_args spec = None \<and> connections spec = None
      \<and> variables spec = None)"

text \<open>A finding is the dict appended to \<^verbatim>\<open>self.errors\<close> or \<^verbatim>\<open>self.warnings\<close>.\<close>

record finding =
  ftype :: string
  field :: "string option"
  line :: "nat option"
  message :: string
  details :: "string entry"

definition field_finding :: "string \<Rightarrow> string \<Rightarrow> string \<Rightarrow> finding" where
  "field_finding t f m = \<lparr>ftype = t, field = Some f, line = None, message = m, details = Absent\<rparr>"

text \<open>The instance state: \<^verbatim>\<open>self.errors\<close> and \<^verbatim>\<open>self.warnings\<close>.\<close>

record validator =
  self_errors :: "finding list"
  self_warnings :: "finding list"

record validation_result =
  valid :: bool
  errors :: "finding list"
  warnings :: "finding list"

definition add_error :: "finding \<Rightarrow> validator \<Rightarrow> validator" where
  "add_error f v = v\<lparr>self_errors := self_errors v @ [f]\<rparr>"

definition add_warning :: "finding \<Rightarrow> validator \<Rightarrow> validator" where
  "add_warning f v = v\<lparr>self_warnings := self_warnings v @ [f]\<rparr>"

definition reset :: "validator \<Rightarrow> validator" where
  "reset v = v\<lparr>self_errors := [], self_warnings := []\<rparr>"

definition build_result :: "validator \<Rightarrow> validation_result" where
  "build_result v =
     \<lparr>valid = (length (self_errors v) = 0), errors = self_errors v, warnings = self_warnings v\<rparr>"

section \<open>Syntax check\<close>

text \<open>
  \<^verbatim>\<open>_check_dag_structure\<close>: one pass over the nodes of \<^verbatim>\<open>ast.walk(tree)\<close>, setting three
  flags, then one warning for each flag still unset. \<^verbatim>\<open>x in s\<close> on strings is \<open>sublist\<close>.
\<close>

record scan_flags =
  has_dag_import :: bool
  has_dag_definition :: bool
  has_tasks :: bool

fun scan_node :: "ast_node \<Rightarrow> scan_flags \<Rightarrow> scan_flags" where
  "scan_node (ImportFrom module names) fl =
     (case module of
        None \<Rightarrow> fl
      | Some m \<Rightarrow>
          if m \<noteq> [] \<and> sublist ''airflow'' m
          then (let fl1 = fl\<lparr>has_dag_import := True\<rparr>
                in if list_ex (\<lambda>name. name = ''DAG'') names
                   then fl1\<lparr>has_dag_definition := True\<rparr> else fl1)
          else fl)"
| "scan_node (Call (Name ident)) fl =
     (let fl1 = (if ident = ''DAG'' then fl\<lparr>has_dag_definition := True\<rparr> else fl)
      in if list_ex (\<lambda>op. sublist op ident) [''Operator'', ''Sensor'']
         then fl1\<lparr>has_tasks := True\<rparr> else fl1)"
| "scan_node (Call OtherExpr) fl = fl"
| "scan_node OtherNode fl = fl"

definition structure_warning :: "string \<Rightarrow> finding" where
  "structure_warning m =
     \<lparr>ftype = ''structure'', field = None, line = None, message = m, details = Absent\<rparr>"

definition check_dag_structure :: "ast_node list \<Rightarrow> validator \<Rightarrow> validator" where
  "check_dag_structure nodes v =
     (let fl = fold scan_node nodes
                 \<lparr>has_dag_import = False, has_dag_definition = False, has_tasks = False\<rparr>;
          v1 = (if \<not> has_dag_import fl
                then add_warning (structure_warning
                  ''No Airflow imports detected. Ensure you import from airflow modules.'') v
                else v);
          v2 = (if \<not> has_dag_definition fl
                then add_warning (structure_warning
                  ''No DAG definition found. A DAG object must be instantiated.'') v1
                else v1)
      in if \<not> has_tasks fl
         then add_warning (structure_warning
           ''No task operators detected. DAG should contain at least one task.'') v2
         else v2)"

text \<open>\<^verbatim>\<open>str(e.lineno)\<close> in the message: \<^verbatim>\<open>lineno\<close> is an int or \<^verbatim>\<open>None\<close>.\<close>

fun str_lineno :: "nat option \<Rightarrow> string" where
  "str_lineno None = ''None''"
| "str_lineno (Some n) = str_nat n"

fun lineno_or_0 :: "nat option \<Rightarrow> nat" where
  "lineno_or_0 None = 0"
| "lineno_or_0 (Some n) = n"

text \<open>\<^verbatim>\<open>str(e.text).strip() if e.text else None\<close>\<close>

fun details_of :: "string option \<Rightarrow> string entry" where
  "details_of None = Null"
| "details_of (Some text) = (if text \<noteq> [] then Present (py_strip text) else Null)"

text \<open>
  \<^verbatim>\<open>validate_syntax\<close>. The method returns the result dict and leaves the findings in the
  instance; the model returns both.
\<close>

definition validate_syntax ::
  "library \<Rightarrow> validator \<Rightarrow> string \<Rightarrow> validation_result \<times> validator" where
  "validate_syntax lib v0 dag_code =
     (let v = reset v0
      in if dag_code = [] \<or> py_strip dag_code = []
         then (let v1 = add_error \<lparr>ftype = ''syntax'', field = None, line = Some 0,
                                    message = ''DAG code is empty'', details = Absent\<rparr> v
               in (build_result v1, v1))
         else (case ast_parse lib dag_code of
                 Parsed nodes \<Rightarrow>
                   (let v1 = check_dag_structure nodes v in (build_result v1, v1))
               | SyntaxError lineno msg text \<Rightarrow>
                   (let error_msg = ''Syntax error at line '' @ str_lineno lineno @ '': '' @ msg;
                        v1 = add_error \<lparr>ftype = ''syntax'', field = None,
                                         line = Some (lineno_or_0 lineno), message = error_msg,
                                         details = details_of text\<rparr> v
                    in (build_result v1, v1))
               | OtherException str_e \<Rightarrow>
                   (let v1 = add_error \<lparr>ftype = ''validation'', field = None, line = Some 0,
                                         message = ''Validation error: '' @ str_e,
                                         details = Absent\<rparr> v
                    in (build_result v1, v1))))"

section \<open>Structure check: the sub-checks\<close>

subsection \<open>Required fields, DAG id, schedule, start date\<close>

definition required_field :: "string \<Rightarrow> bool \<Rightarrow> validator \<Rightarrow> validator" where
  "required_field name missing v =
     (if missing
      then (if name = ''schedule''
            then add_warning (field_finding ''field'' name
                   ''Schedule is None - DAG will not run automatically'') v
            else add_error (field_finding ''field'' name
                   (''Required field '' @ quoted name @ '' is missing or null'')) v)
      else v)"

definition validate_required_fields :: "dag_spec \<Rightarrow> validator \<Rightarrow> validator" where
  "validate_required_fields spec v =
     fold (\<lambda>(name, missing). required_field name missing)
       [(''dag_id'', absent_or_null (dag_id spec)),
        (''description'', absent_or_null (description spec)),
        (''schedule'', absent_or_null (schedule spec)),
        (''tasks'', absent_or_null (tasks spec))] v"

text \<open>\<^verbatim>\<open>not dag_id\<close> holds for \<^verbatim>\<open>None\<close> and for the empty string.\<close>

definition validate_dag_id :: "string option \<Rightarrow> validator \<Rightarrow> validator" where
  "validate_dag_id dag_id_opt v =
     (case dag_id_opt of
        None \<Rightarrow> v
      | Some d \<Rightarrow>
          if d = [] then v
          else (let v1 = (if \<not> re_match_id d
                          then add_error (field_finding ''format'' ''dag_id''
                                 (''DAG ID '' @ quoted d @
                                  '' contains invalid characters. Use only letters, numbers, underscores, and hyphens.'')) v
                          else v);
                    v2 = (if length d > 100
                          then add_error (field_finding ''format'' ''dag_id''
                                 (''DAG ID is too long ('' @ str_nat (length d) @
                                  '' chars). Maximum is 100 characters.'')) v1
                          else v1)
                in if d \<noteq> py_lower d
                   then add_warning (field_finding ''format'' ''dag_id''
                          (''DAG ID should be lowercase for consistency. Consider: '' @
                           quoted (py_lower d))) v2
                   else v2))"

definition VALID_SCHEDULES :: "string option list" where
  "VALID_SCHEDULES =
     [Some ''@once'', Some ''@hourly'', Some ''@daily'', Some ''@weekly'', Some ''@monthly'',
      Some ''@yearly'', Some ''@annually'', None, Some ''None'', Some ''null'']"

definition validate_schedule :: "library \<Rightarrow> string option \<Rightarrow> validator \<Rightarrow> validator" where
  "validate_schedule lib schedule_opt v =
     (case schedule_opt of
        None \<Rightarrow> v
      | Some s \<Rightarrow>
          if s \<in> set [''None'', ''null''] then v
          else if Some s \<in> set VALID_SCHEDULES then v
          else if \<not> cron_match lib (py_strip s)
               then add_warning (field_finding ''format'' ''schedule''
                      (''Schedule '' @ quoted s @
                       '' may not be a valid cron expression or preset'')) v
               else v)"

definition start_date_warning :: finding where
  "start_date_warning =
     field_finding ''field'' ''start_date'' ''No start_date specified. Will use default.''"

definition start_date_error :: "string \<Rightarrow> finding" where
  "start_date_error s =
     field_finding ''format'' ''start_date''
       (''Invalid date format '' @ quoted s @ ''. Use YYYY-MM-DD.'')"

definition validate_start_date :: "library \<Rightarrow> string option \<Rightarrow> validator \<Rightarrow> validator" where
  "validate_start_date lib start_date_opt v =
     (case start_date_opt of
        None \<Rightarrow> add_warning start_date_warning v
      | Some s \<Rightarrow>
          if s = [] then add_warning start_date_warning v
          else if fromisoformat lib s then v
          else add_error (start_date_error s) v)"

subsection \<open>Tasks, connections, variables\<close>

definition VALID_OPERATORS :: "string list" where
  "VALID_OPERATORS =
     [''BashOperator'', ''PythonOperator'', ''EmailOperator'', ''SimpleHttpOperator'',
      ''PostgresOperator'', ''MySqlOperator'', ''SqliteOperator'', ''MsSqlOperator'',
      ''OracleOperator'', ''S3FileTransformOperator'', ''S3ToRedshiftOperator'',
      ''RedshiftToS3Operator'', ''BigQueryOperator'', ''BigQueryCreateEmptyTableOperator'',
      ''GCSToGoogleDriveOperator'', ''SnowflakeOperator'', ''SparkSubmitOperator'',
      ''DatabricksSubmitRunOperator'', ''KubernetesPodOperator'', ''DockerOperator'',
      ''EmptyOperator'', ''BranchPythonOperator'', ''ShortCircuitOperator'',
      ''TriggerDagRunOperator'', ''ExternalTaskSensor'', ''HttpSensor'',
      ''S3KeySensor'', ''SqlSensor'', ''TimeDeltaSensor'']"

definition params_warning :: "nat \<Rightarrow> string \<Rightarrow> finding" where
  "params_warning i tid =
     field_finding ''params'' (''tasks['' @ str_nat i @ ''].params'')
       (''Task '' @ quoted tid @ '' has no parameters. Operator may require configuration.'')"

text \<open>
  The body of the loop of \<^verbatim>\<open>_validate_tasks\<close> for the task at index \<open>i\<close>; the state of
  the loop is the set \<^verbatim>\<open>task_ids\<close> seen so far and the validator.
\<close>

definition validate_task ::
  "nat \<Rightarrow> task \<Rightarrow> string set \<times> validator \<Rightarrow> string set \<times> validator" where
  "validate_task i t = (\<lambda>(task_ids, v).
     (case task_id t of
        None \<Rightarrow>
          (task_ids,
           add_error (field_finding ''field'' (''tasks['' @ str_nat i @ ''].task_id'')
             (''Task at index '' @ str_nat i @ '' is missing task_id'')) v)
      | Some tid \<Rightarrow>
          (let v1 = (if tid \<in> task_ids
                     then add_error (field_finding ''duplicate'' ''task_id''
                            (''Duplicate task_id: '' @ quoted tid)) v
                     else v);
               v2 = (if \<not> re_match_id tid
                     then add_error (field_finding ''format'' (''tasks['' @ str_nat i @ ''].task_id'')
                            (''Task ID '' @ quoted tid @ '' contains invalid characters'')) v1
                     else v1);
               v3 = (if \<not> truthy (operator_type t)
                     then add_error (field_finding ''field''
                            (''tasks['' @ str_nat i @ ''].operator_type'')
                            (''Task '' @ quoted tid @ '' is missing operator_type'')) v2
                     else if operator_type t \<notin> Some ` set VALID_OPERATORS
                     then add_warning (field_finding ''operator''
                            (''tasks['' @ str_nat i @ ''].operator_type'')
                            (''Unknown operator type: '' @
                             quoted (case operator_type t of Some ot \<Rightarrow> ot | None \<Rightarrow> [])
                             @ ''. May not be supported.'')) v2
                     else v2);
               v4 = (if truthy (operator_type t) \<and> \<not> truthy (params t)
                     then add_warning (params_warning i tid) v3
                     else v3)
           in (insert tid task_ids, v4))))"

text \<open>\<^verbatim>\<open>for i, task in enumerate(tasks)\<close>, from index \<open>i\<close> on.\<close>

fun validate_tasks_loop ::
  "nat \<Rightarrow> task list \<Rightarrow> string set \<times> validator \<Rightarrow> string set \<times> validator" where
  "validate_tasks_loop i [] st = st"
| "validate_tasks_loop i (t # ts) st = validate_tasks_loop (Suc i) ts (validate_task i t st)"

text \<open>
  \<^verbatim>\<open>_validate_tasks(dag_spec.get('tasks', []))\<close>: the argument is \<^verbatim>\<open>None\<close> when the key
  is mapped to \<^verbatim>\<open>None\<close>; \<^verbatim>\<open>not tasks\<close> holds for \<^verbatim>\<open>None\<close> and for the empty list.
\<close>

definition validate_tasks :: "task list option \<Rightarrow> validator \<Rightarrow> validator" where
  "validate_tasks tasks_opt v =
     (case tasks_opt of
        None \<Rightarrow> add_error (field_finding ''structure'' ''tasks''
                  ''DAG must contain at least one task'') v
      | Some ts \<Rightarrow>
          if ts = []
          then add_error (field_finding ''structure'' ''tasks''
                 ''DAG must contain at least one task'') v
          else snd (validate_tasks_loop 0 ts ({}, v)))"

definition validate_connection ::
  "nat \<Rightarrow> connection \<Rightarrow> string set \<times> validator \<Rightarrow> string set \<times> validator" where
  "validate_connection i conn = (\<lambda>(conn_ids, v).
     (case conn_id conn of
        None \<Rightarrow>
          (conn_ids,
           add_error (field_finding ''field'' (''connections['' @ str_nat i @ ''].conn_id'')
             (''Connection at index '' @ str_nat i @ '' is missing conn_id'')) v)
      | Some cid \<Rightarrow>
          (let v1 = (if cid \<in> conn_ids
                     then add_error (field_finding ''duplicate'' ''conn_id''
                            (''Duplicate connection ID: '' @ quoted cid)) v
                     else v);
               v2 = (if conn_type conn = None
                     then add_error (field_finding ''field''
                            (''connections['' @ str_nat i @ ''].conn_type'')
                            (''Connection '' @ quoted cid @ '' is missing conn_type'')) v1
                     else v1)
           in (insert cid conn_ids, v2))))"

fun validate_connections_loop ::
  "nat \<Rightarrow> connection list \<Rightarrow> string set \<times> validator \<Rightarrow> string set \<times> validator" where
  "validate_connections_loop i [] st = st"
| "validate_connections_loop i (c # cs) st =
     validate_connections_loop (Suc i) cs (validate_connection i c st)"

definition validate_connections :: "connection list \<Rightarrow> validator \<Rightarrow> validator" where
  "validate_connections conns v = snd (validate_connections_loop 0 conns ({}, v))"

definition validate_variable ::
  "nat \<Rightarrow> variable \<Rightarrow> string set \<times> validator \<Rightarrow> string set \<times> validator" where
  "validate_variable i var = (\<lambda>(var_keys, v).
     (case var_key var of
        None \<Rightarrow>
          (var_keys,
           add_error (field_finding ''field'' (''variables['' @ str_nat i @ ''].key'')
             (''Variable at index '' @ str_nat i @ '' is missing key'')) v)
      | Some k \<Rightarrow>
          (insert k var_keys,
           if k \<in> var_keys
           then add_warning (field_finding ''duplicate'' ''variable_key''
                  (''Duplicate variable key: '' @ quoted k)) v
           else v)))"

fun validate_variables_loop ::
  "nat \<Rightarrow> variable list \<Rightarrow> string set \<times> validator \<Rightarrow> string set \<times> validator" where
  "validate_variables_loop i [] st = st"
| "validate_variables_loop i (x # xs) st =
     validate_variables_loop (Suc i) xs (validate_variable i x st)"

definition validate_variables :: "variable list \<Rightarrow> validator \<Rightarrow> validator" where
  "validate_variables vars v = snd (validate_variables_loop 0 vars ({}, v))"

subsection \<open>Dependencies and cycle detection\<close>

text \<open>\<^verbatim>\<open>task.get('dependencies', [])\<close>\<close>

definition deps :: "task \<Rightarrow> string list" where
  "deps t = (case dependencies t of None \<Rightarrow> [] | Some ds \<Rightarrow> ds)"

text \<open>
  The adjacency dict of \<^verbatim>\<open>_has_circular_dependencies\<close>, in insertion order: assigning to
  a key that is already there replaces its value and keeps its position.
\<close>

type_synonym graph = "(string \<times> string list) list"

definition build_graph :: "task list \<Rightarrow> graph" where
  "build_graph ts =
     fold (\<lambda>t g. case task_id t of None \<Rightarrow> g | Some tid \<Rightarrow> AList.update tid (deps t) g) ts []"

text \<open>\<^verbatim>\<open>graph.get(node, [])\<close>\<close>

definition graph_get :: "graph \<Rightarrow> string \<Rightarrow> string list" where
  "graph_get g node = (case map_of g node of None \<Rightarrow> [] | Some ds \<Rightarrow> ds)"

text \<open>The keys and all their dependencies: the finite set the search stays in.\<close>

definition graph_nodes :: "graph \<Rightarrow> string set" where
  "graph_nodes g = fst ` set g \<union> (\<Union>(set ` snd ` set g))"

text \<open>The two sets the nested function \<^verbatim>\<open>has_cycle\<close> mutates.\<close>

record dfs_state =
  visited :: "string set"
  rec_stack :: "string set"

text \<open>
  \<^verbatim>\<open>has_cycle(node)\<close> and its loop over the neighbours. The first argument is the number
  of nested calls of \<^verbatim>\<open>has_cycle\<close> the stack still takes: a call with none left raises
  \<^verbatim>\<open>RecursionError\<close>, which nothing in the class catches. Otherwise both return the flag
  the Python returns and the state it leaves; on \<^verbatim>\<open>return True\<close> the node stays in
  \<^verbatim>\<open>rec_stack\<close>.
\<close>

fun has_cycle :: "nat \<Rightarrow> graph \<Rightarrow> string \<Rightarrow> dfs_state \<Rightarrow> py_exception + bool \<times> dfs_state"
  and visit_neighbors ::
    "nat \<Rightarrow> graph \<Rightarrow> string list \<Rightarrow> dfs_state \<Rightarrow> py_exception + bool \<times> dfs_state"
where
  "has_cycle 0 g node st = Inl RecursionError"
| "has_cycle (Suc n) g node st =
     (case visit_neighbors n g (graph_get g node)
             (st\<lparr>visited := insert node (visited st), rec_stack := insert node (rec_stack st)\<rparr>) of
        Inl e \<Rightarrow> Inl e
      | Inr (True, st') \<Rightarrow> Inr (True, st')
      | Inr (False, st') \<Rightarrow> Inr (False, st'\<lparr>rec_stack := rec_stack st' - {node}\<rparr>))"
| "visit_neighbors n g [] st = Inr (False, st)"
| "visit_neighbors n g (neighbor # rest) st =
     (if neighbor \<notin> visited st then
        (case has_cycle n g neighbor st of
           Inl e \<Rightarrow> Inl e
         | Inr (True, st') \<Rightarrow> Inr (True, st')
         | Inr (False, st') \<Rightarrow> visit_neighbors n g rest st')
      else if neighbor \<in> rec_stack st then Inr (True, st)
      else visit_neighbors n g rest st)"

text \<open>The outer loop \<^verbatim>\<open>for node in graph\<close> over the keys.\<close>

fun dfs_roots :: "nat \<Rightarrow> graph \<Rightarrow> string list \<Rightarrow> dfs_state \<Rightarrow> py_exception + bool" where
  "dfs_roots n g [] st = Inr False"
| "dfs_roots n g (node # rest) st =
     (if node \<notin> visited st then
        (case has_cycle n g node st of
           Inl e \<Rightarrow> Inl e
         | Inr (True, st') \<Rightarrow> Inr True
         | Inr (False, st') \<Rightarrow> dfs_roots n g rest st')
      else dfs_roots n g rest st)"

definition has_circular_dependencies :: "nat \<Rightarrow> task list \<Rightarrow> py_exception + bool" where
  "has_circular_dependencies n ts =
     (let g = build_graph ts
      in dfs_roots n g (map fst g) \<lparr>visited = {}, rec_stack = {}\<rparr>)"

definition nonexistent_error :: "string \<Rightarrow> string \<Rightarrow> finding" where
  "nonexistent_error tid dep =
     field_finding ''dependency'' ''dependencies''
       (''Task '' @ quoted tid @ '' depends on non-existent task '' @ quoted dep)"

definition self_dependency_error :: "string \<Rightarrow> finding" where
  "self_dependency_error tid =
     field_finding ''dependency'' ''dependencies''
       (''Task '' @ quoted tid @ '' cannot depend on itself'')"

definition circular_error :: finding where
  "circular_error =
     field_finding ''dependency'' ''dependencies'' ''Circular dependency detected in task graph''"

text \<open>The body of \<^verbatim>\<open>for dep in dependencies\<close>: two independent tests.\<close>

definition check_dep :: "string set \<Rightarrow> string \<Rightarrow> string \<Rightarrow> validator \<Rightarrow> validator" where
  "check_dep task_ids tid dep v =
     (let v1 = (if dep \<notin> task_ids then add_error (nonexistent_error tid dep) v else v)
      in if dep = tid then add_error (self_dependency_error tid) v1 else v1)"

definition check_task_deps :: "string set \<Rightarrow> task \<Rightarrow> validator \<Rightarrow> validator" where
  "check_task_deps task_ids t v =
     (case task_id t of
        None \<Rightarrow> v
      | Some tid \<Rightarrow> fold (check_dep task_ids tid) (deps t) v)"

text \<open>\<^verbatim>\<open>{task['task_id'] for task in tasks if 'task_id' in task}\<close>\<close>

definition task_id_set :: "task list \<Rightarrow> string set" where
  "task_id_set ts = set (List.map_filter task_id ts)"

text \<open>
  \<^verbatim>\<open>_validate_dependencies\<close>: the exception it lets through, if any, and the state of the
  instance it leaves. The errors of the loop are appended before the search starts.
\<close>

definition validate_dependencies ::
  "nat \<Rightarrow> task list option \<Rightarrow> validator \<Rightarrow> py_exception option \<times> validator" where
  "validate_dependencies n tasks_opt v =
     (case tasks_opt of
        None \<Rightarrow> (None, v)
      | Some ts \<Rightarrow>
          if ts = [] then (None, v)
          else (let v1 = fold (check_task_deps (task_id_set ts)) ts v
                in case has_circular_dependencies n ts of
                     Inl e \<Rightarrow> (Some e, v1)
                   | Inr True \<Rightarrow> (None, add_error circular_error v1)
                   | Inr False \<Rightarrow> (None, v1)))"

section \<open>Structure check\<close>

definition root_error :: finding where
  "root_error = field_finding ''structure'' ''root'' ''DAG specification is empty''"

text \<open>\<^verbatim>\<open>dag_spec.get('connections', [])\<close> and \<^verbatim>\<open>dag_spec.get('variables', [])\<close>\<close>

definition or_empty :: "'a list option \<Rightarrow> 'a list" where
  "or_empty xs = (case xs of None \<Rightarrow> [] | Some ys \<Rightarrow> ys)"

text \<open>
  \<^verbatim>\<open>validate_structure\<close>. The argument is \<open>None\<close> for Python's \<^verbatim>\<open>None\<close>. The method
  returns the result dict, or lets the exception of the dependency check through, and
  leaves the findings in the instance; the model returns the outcome (\<open>Inl\<close> the exception,
  \<open>Inr\<close> the result) and the state of the instance.
\<close>

definition validate_structure ::
  "library \<Rightarrow> validator \<Rightarrow> dag_spec option
     \<Rightarrow> (py_exception + validation_result) \<times> validator" where
  "validate_structure lib v0 dag_spec_opt =
     (let v = reset v0
      in case dag_spec_opt of
           None \<Rightarrow> (let v1 = add_error root_error v in (Inr (build_result v1), v1))
         | Some spec \<Rightarrow>
             if spec_is_empty spec
             then (let v1 = add_error root_error v in (Inr (build_result v1), v1))
             else (let v1 = validate_required_fields spec v;
                       v2 = validate_dag_id (entry_get (dag_id spec)) v1;
                       v3 = validate_schedule lib (entry_get (schedule spec)) v2;
                       v4 = validate_start_date lib (entry_get (start_date spec)) v3;
                       v5 = validate_tasks (entry_get_default (tasks spec) []) v4;
                       v6 = validate_connections (or_empty (connections spec)) v5;
                       v7 = validate_variables (or_empty (variables spec)) v6
                   in case validate_dependencies (recursion_budget lib)
                             (entry_get_default (tasks spec) []) v7 of
                        (Some e, v8) \<Rightarrow> (Inl e, v8)
                      | (None, v8) \<Rightarrow> (Inr (build_result v8), v8)))"

section \<open>Sequences of calls on one instance\<close>

text \<open>
  A call of one of the two public methods on a validator instance; \<open>do_call\<close> is the
  state of the instance after the call, whether it returns or raises.
\<close>

datatype call = CallSyntax string | CallStructure "dag_spec option"

fun do_call :: "library \<Rightarrow> call \<Rightarrow> validator \<Rightarrow> validator" where
  "do_call lib (CallSyntax dag_code) v = snd (validate_syntax lib v dag_code)"
| "do_call lib (CallStructure dag_spec_opt) v = snd (validate_structure lib v dag_spec_opt)"

section \<open>Notions used to state the properties\<close>

text \<open>The task list of a specification: empty when the key is absent or \<^verbatim>\<open>None\<close>.\<close>

definition spec_tasks :: "dag_spec \<Rightarrow> task list" where
  "spec_tasks spec = (case tasks spec of Absent \<Rightarrow> [] | Null \<Rightarrow> [] | Present ts \<Rightarrow> ts)"

text \<open>
  A call returns when its outcome is a result and not an exception. What it hands to its
  caller then is the errors and warnings of the result; a call that raises hands over
  none.
\<close>

definition returns :: "py_exception + 'a \<Rightarrow> bool" where
  "returns out = (case out of Inl e \<Rightarrow> False | Inr r \<Rightarrow> True)"

definition reported_errors :: "py_exception + validation_result \<Rightarrow> finding list" where
  "reported_errors out = (case out of Inl e \<Rightarrow> [] | Inr r \<Rightarrow> errors r)"

definition reported_warnings :: "py_exception + validation_result \<Rightarrow> finding list" where
  "reported_warnings out = (case out of Inl e \<Rightarrow> [] | Inr r \<Rightarrow> warnings r)"

text \<open>
  The names in a task list: the declared \<^verbatim>\<open>task_id\<close>s and all dependency entries. The
  search opens at most one call of \<^verbatim>\<open>has_cycle\<close> inside another for each of them.
\<close>

definition dependency_names :: "task list \<Rightarrow> string set" where
  "dependency_names ts = task_id_set ts \<union> (\<Union>t\<in>set ts. set (deps t))"

text \<open>
  The declared dependency graph: an edge from the \<^verbatim>\<open>task_id\<close> of every task that has
  one to every entry of its dependencies list.
\<close>

definition dep_edges :: "task list \<Rightarrow> (string \<times> string) set" where
  "dep_edges ts = {(u, d). \<exists>t\<in>set ts. task_id t = Some u \<and> d \<in> set (deps t)}"

text \<open>
  The graph in which a \<^verbatim>\<open>task_id\<close> declared more than once keeps the dependencies of its
  last declaration only.
\<close>

definition last_declared :: "task list \<Rightarrow> string \<Rightarrow> task option" where
  "last_declared ts u = find (\<lambda>t. task_id t = Some u) (rev ts)"

definition effective_edges :: "task list \<Rightarrow> (string \<times> string) set" where
  "effective_edges ts = {(u, d). \<exists>t. last_declared ts u = Some t \<and> d \<in> set (deps t)}"


definition is_circular_error :: "finding \<Rightarrow> bool" where
  "is_circular_error e =
     (ftype e = ''dependency'' \<and> message e = ''Circular dependency detected in task graph'')"



text \<open>Findings recognised by their type and field.\<close>

definition about_dag_id :: "finding \<Rightarrow> bool" where
  "about_dag_id e = (field e = Some ''dag_id'')"



definition empty_code_error :: finding where
  "empty_code_error =
     \<lparr>ftype = ''syntax'', field = None, line = Some 0, message = ''DAG code is empty'',
      details = Absent\<rparr>"

definition is_digit :: "char \<Rightarrow> bool" where
  "is_digit c = (let n = (of_char c :: nat) in 48 \<le> n \<and> n \<le> 57)"

definition dec_val :: "string \<Rightarrow> nat" where
  "dec_val s = foldl (\<lambda>n c. 10 * n + (of_char c - 48)) 0 s"

definition days_in_month :: "nat \<Rightarrow> nat \<Rightarrow> nat" where
  "days_in_month y m =
     (if m = 2 then (if y mod 4 = 0 \<and> (y mod 100 \<noteq> 0 \<or> y mod 400 = 0) then 29 else 28)
      else if m = 4 \<or> m = 6 \<or> m = 9 \<or> m = 11 then 30 else 31)"

text \<open>A calendar date written \<^verbatim>\<open>YYYY-MM-DD\<close> and nothing else.\<close>

definition iso_date :: "string \<Rightarrow> bool" where
  "iso_date s =
     (length s = 10 \<and> list_all is_digit (take 4 s) \<and> s ! 4 = CHR ''-''
      \<and> list_all is_digit (take 2 (drop 5 s)) \<and> s ! 7 = CHR ''-''
      \<and> list_all is_digit (drop 8 s)
      \<and> (let y = dec_val (take 4 s); m = dec_val (take 2 (drop 5 s)); d = dec_val (drop 8 s)
         in 1 \<le> y \<and> 1 \<le> m \<and> m \<le> 12 \<and> 1 \<le> d \<and> d \<le> days_in_month y m))"

section \<open>Concrete inputs\<close>

text \<open>A time of day written \<^verbatim>\<open>HH:MM:SS\<close>.\<close>

definition iso_time :: "string \<Rightarrow> bool" where
  "iso_time s =
     (length s = 8 \<and> list_all is_digit (take 2 s) \<and> s ! 2 = CHR '':''
      \<and> list_all is_digit (take 2 (drop 3 s)) \<and> s ! 5 = CHR '':''
      \<and> list_all is_digit (drop 6 s)
      \<and> dec_val (take 2 s) < 24 \<and> dec_val (take 2 (drop 3 s)) < 60 \<and> dec_val (drop 6 s) < 60)"

definition iso_date_or_datetime :: "string \<Rightarrow> bool" where
  "iso_date_or_datetime s =
     (iso_date (take 10 s) \<and> (length s = 10 \<or> (length s = 19 \<and> iso_time (drop 11 s))))"

text \<open>
  One instance of the library parameters. Its date parser accepts \<^verbatim>\<open>YYYY-MM-DD\<close> and
  \<^verbatim>\<open>YYYY-MM-DD*HH:MM:SS\<close> (\<^verbatim>\<open>*\<close> any one character), two shapes that
  \<^verbatim>\<open>datetime.fromisoformat\<close> accepts. It allows 1000 nested calls of \<^verbatim>\<open>has_cycle\<close>, an
  upper bound of what the default recursion limit of 1000 frames leaves; the inputs used
  below need fewer than ten nested calls, or more than a thousand. Its other two fields are
  never consulted by the inputs used below.
\<close>

definition sample_library :: library where
  "sample_library =
     \<lparr>ast_parse = (\<lambda>src. OtherException []),
      fromisoformat = iso_date_or_datetime,
      cron_match = (\<lambda>s. False),
      recursion_budget = 1000\<rparr>"

definition fresh_validator :: validator where
  "fresh_validator = \<lparr>self_errors = [], self_warnings = []\<rparr>"

definition bash_task :: "string \<Rightarrow> string list \<Rightarrow> task" where
  "bash_task tid ds =
     \<lparr>task_id = Some tid, operator_type = Some ''BashOperator'',
      params = Some [(''bash_command'', ''true'')], parameters = None, dependencies = Some ds\<rparr>"

definition daily_spec :: "string \<Rightarrow> task list \<Rightarrow> dag_spec" where
  "daily_spec ident ts =
     \<lparr>dag_id = Present ident, description = Present ''d'', schedule = Present ''@daily'',
      tasks = Present ts, start_date = Present ''2024-01-01'', catchup = None, tags = None,
      default_args = None, connections = None, variables = None\<rparr>"



definition empty_spec :: dag_spec where
  "empty_spec =
     \<lparr>dag_id = Absent, description = Absent, schedule = Absent, tasks = Absent,
      start_date = Absent, catchup = None, tags = None, default_args = None,
      connections = None, variables = None\<rparr>"

section \<open>Notions used in the proofs\<close>

text \<open>
  The same search with no bound on the depth. It is used in the proofs only: the bounded
  search either raises or returns what this one returns.
\<close>

function unbounded_has_cycle :: "graph \<Rightarrow> string \<Rightarrow> dfs_state \<Rightarrow> bool \<times> dfs_state"
  and unbounded_visit_neighbors :: "graph \<Rightarrow> string list \<Rightarrow> dfs_state \<Rightarrow> bool \<times> dfs_state"
where
  "unbounded_has_cycle g node st =
     (case unbounded_visit_neighbors g (graph_get g node)
             (st\<lparr>visited := insert node (visited st), rec_stack := insert node (rec_stack st)\<rparr>) of
        (True, st') \<Rightarrow> (True, st')
      | (False, st') \<Rightarrow> (False, st'\<lparr>rec_stack := rec_stack st' - {node}\<rparr>))"
| "unbounded_visit_neighbors g [] st = (False, st)"
| "unbounded_visit_neighbors g (neighbor # rest) st =
     (if neighbor \<notin> visited st then
        (case unbounded_has_cycle g neighbor st of
           (True, st') \<Rightarrow> (True, st')
         | (False, st') \<Rightarrow> unbounded_visit_neighbors g rest st')
      else if neighbor \<in> rec_stack st then (True, st)
      else unbounded_visit_neighbors g rest st)"
  by pat_completeness auto

fun unbounded_dfs_roots :: "graph \<Rightarrow> string list \<Rightarrow> dfs_state \<Rightarrow> bool" where
  "unbounded_dfs_roots g [] st = False"
| "unbounded_dfs_roots g (node # rest) st =
     (if node \<notin> visited st then
        (case unbounded_has_cycle g node st of
           (True, st') \<Rightarrow> True
         | (False, st') \<Rightarrow> unbounded_dfs_roots g rest st')
      else unbounded_dfs_roots g rest st)"

definition unbounded_has_circular :: "task list \<Rightarrow> bool" where
  "unbounded_has_circular ts =
     (let g = build_graph ts
      in unbounded_dfs_roots g (map fst g) \<lparr>visited = {}, rec_stack = {}\<rparr>)"

text \<open>
  A sub-check only appends to the two lists of the instance. \<open>emits S f\<close> says so for the
  state transformer \<open>f\<close>, and that every finding it appends satisfies \<open>S\<close>. The
  \<open>_shape\<close> predicates give, for each sub-check, the \<^verbatim>\<open>type\<close> and \<^verbatim>\<open>field\<close> of the
  findings it can append.
\<close>

definition emits :: "(finding \<Rightarrow> bool) \<Rightarrow> (validator \<Rightarrow> validator) \<Rightarrow> bool" where
  "emits S f =
     (\<forall>v. \<exists>es ws. f v = \<lparr>self_errors = self_errors v @ es, self_warnings = self_warnings v @ ws\<rparr>
                    \<and> list_all S es \<and> list_all S ws)"

definition required_shape :: "dag_spec \<Rightarrow> finding \<Rightarrow> bool" where
  "required_shape spec e =
     (ftype e = ''field'' \<and>
      (field e = Some ''description'' \<or> field e = Some ''schedule'' \<or> field e = Some ''tasks''
       \<or> (field e = Some ''dag_id'' \<and> absent_or_null (dag_id spec))))"

definition dag_id_shape :: "finding \<Rightarrow> bool" where
  "dag_id_shape e = (ftype e = ''format'' \<and> field e = Some ''dag_id'')"

definition schedule_shape :: "finding \<Rightarrow> bool" where
  "schedule_shape e = (ftype e = ''format'' \<and> field e = Some ''schedule'')"

definition start_date_shape :: "finding \<Rightarrow> bool" where
  "start_date_shape e =
     (field e = Some ''start_date'' \<and> (ftype e = ''field'' \<or> ftype e = ''format''))"

definition tasks_shape :: "finding \<Rightarrow> bool" where
  "tasks_shape e =
     (ftype e \<in> set [''structure'', ''field'', ''duplicate'', ''format'', ''operator'', ''params'']
      \<and> (\<exists>fld. field e = Some fld \<and>
            (fld = ''tasks'' \<or> fld = ''task_id'' \<or> prefix ''tasks['' fld)))"

definition connections_shape :: "finding \<Rightarrow> bool" where
  "connections_shape e =
     (ftype e \<in> set [''field'', ''duplicate'']
      \<and> (\<exists>fld. field e = Some fld \<and> (fld = ''conn_id'' \<or> prefix ''connections['' fld)))"

definition variables_shape :: "finding \<Rightarrow> bool" where
  "variables_shape e =
     (ftype e \<in> set [''field'', ''duplicate'']
      \<and> (\<exists>fld. field e = Some fld \<and> (fld = ''variable_key'' \<or> prefix ''variables['' fld)))"

definition dependency_shape :: "finding \<Rightarrow> bool" where
  "dependency_shape e = (ftype e = ''dependency'' \<and> field e = Some ''dependencies'')"


text \<open>The state of the instance when the dependency check starts, for a non-empty dict.\<close>

definition before_dependencies :: "library \<Rightarrow> dag_spec \<Rightarrow> validator" where
  "before_dependencies lib spec =
     validate_variables (or_empty (variables spec))
       (validate_connections (or_empty (connections spec))
         (validate_tasks (entry_get_default (tasks spec) [])
           (validate_start_date lib (entry_get (start_date spec))
             (validate_schedule lib (entry_get (schedule spec))
               (validate_dag_id (entry_get (dag_id spec))
                 (validate_required_fields spec
                    \<lparr>self_errors = [], self_warnings = []\<rparr>))))))"

text \<open>
  The errors of the dependency check, per dependency, per task and for a task list; for
  the list, given whether the search reports a cycle.
\<close>

definition dep_findings :: "string set \<Rightarrow> string \<Rightarrow> string \<Rightarrow> finding list" where
  "dep_findings ids tid dep =
     (if dep \<notin> ids then [nonexistent_error tid dep] else [])
     @ (if dep = tid then [self_dependency_error tid] else [])"

definition task_dep_findings :: "string set \<Rightarrow> task \<Rightarrow> finding list" where
  "task_dep_findings ids t =
     (case task_id t of
        None \<Rightarrow> []
      | Some tid \<Rightarrow> concat (map (dep_findings ids tid) (deps t)))"

definition dependency_findings :: "bool \<Rightarrow> task list \<Rightarrow> finding list" where
  "dependency_findings cyclic ts =
     concat (map (task_dep_findings (task_id_set ts)) ts)
     @ (if cyclic then [circular_error] else [])"

text \<open>
  The edges the search follows. A node is finished when it is visited and no longer on
  the recursion stack. While no cycle has been reported, the stack is visited, the finished
  nodes are closed under the edges and none of them lies on a cycle.
\<close>

definition graph_edges :: "graph \<Rightarrow> (string \<times> string) set" where
  "graph_edges g = {(u, d). d \<in> set (graph_get g u)}"

definition finished :: "dfs_state \<Rightarrow> string set" where
  "finished st = visited st - rec_stack st"

definition dfs_inv :: "(string \<times> string) set \<Rightarrow> dfs_state \<Rightarrow> bool" where
  "dfs_inv E st =
     (rec_stack st \<subseteq> visited st
      \<and> (\<forall>u\<in>finished st. \<forall>d. (u, d) \<in> E \<longrightarrow> d \<in> finished st)
      \<and> (\<forall>u\<in>finished st. (u, u) \<notin> E\<^sup>+))"

text \<open>
  What a call leaves behind: a reported cycle exists; otherwise the invariant holds, the
  stack is as before and the nodes in question are finished.
\<close>

definition dfs_post ::
  "(string \<times> string) set \<Rightarrow> dfs_state \<Rightarrow> string set \<Rightarrow> bool \<times> dfs_state \<Rightarrow> bool" where
  "dfs_post E st done r =
     (case r of
        (True, st') \<Rightarrow> \<not> acyclic E
      | (False, st') \<Rightarrow>
          dfs_inv E st' \<and> visited st \<subseteq> visited st' \<and> rec_stack st' = rec_stack st
          \<and> done \<subseteq> finished st')"

section \<open>Termination of the depth-first search\<close>

text \<open>
  A recursive call of \<^verbatim>\<open>unbounded_has_cycle\<close> is on a node that is not yet visited, and the visited
  set only grows, inside the finite set of nodes of the graph.
\<close>

lemma dfs_visited_mono_dom:
  "unbounded_has_cycle_unbounded_visit_neighbors_dom (Inl (g, node, st)) \<Longrightarrow>
     visited st \<subseteq> visited (snd (unbounded_has_cycle g node st))"
  "unbounded_has_cycle_unbounded_visit_neighbors_dom (Inr (g, ns, st)) \<Longrightarrow>
     visited st \<subseteq> visited (snd (unbounded_visit_neighbors g ns st))"
proof (induction g node st and g ns st rule: unbounded_has_cycle_unbounded_visit_neighbors.pinduct)
  case (1 g node st)
  then show ?case
    by (auto simp: unbounded_has_cycle.psimps split: prod.splits bool.splits)
next
  case (2 g st)
  then show ?case by (simp add: unbounded_visit_neighbors.psimps)
next
  case (3 g neighbor rest st)
  show ?case
  proof (cases "neighbor \<notin> visited st")
    case True
    obtain b st' where hc: "unbounded_has_cycle g neighbor st = (b, st')"
      by (cases "unbounded_has_cycle g neighbor st")
    have m1: "visited st \<subseteq> visited st'"
      using 3(2) [OF True] hc by simp
    show ?thesis
    proof (cases b)
      case True
      with \<open>neighbor \<notin> visited st\<close> hc m1 3(1) show ?thesis
        by (simp add: unbounded_visit_neighbors.psimps)
    next
      case False
      then have bF: "b = False" by simp
      have "visited st' \<subseteq> visited (snd (unbounded_visit_neighbors g rest st'))"
        using 3(3) [OF \<open>neighbor \<notin> visited st\<close> hc [symmetric] bF] .
      with False \<open>neighbor \<notin> visited st\<close> hc m1 3(1) show ?thesis
        by (simp add: unbounded_visit_neighbors.psimps)
    qed
  next
    case False
    with 3(1) 3(4) show ?thesis
      by (cases "neighbor \<in> rec_stack st") (simp_all add: unbounded_visit_neighbors.psimps)
  qed
qed

lemma graph_get_nodes: "set (graph_get g node) \<subseteq> graph_nodes g"
proof (cases "map_of g node")
  case None
  then show ?thesis by (simp add: graph_get_def)
next
  case (Some ds)
  then have "(node, ds) \<in> set g" by (rule map_of_SomeD)
  then have "set ds \<subseteq> \<Union>(set ` snd ` set g)" by force
  with Some show ?thesis by (auto simp: graph_get_def graph_nodes_def)
qed

lemma finite_graph_nodes: "finite (graph_nodes g)"
  by (simp add: graph_nodes_def)

termination unbounded_has_cycle
proof (relation "measures
    [case_sum (\<lambda>(g, node, st). card (graph_nodes g - insert node (visited st)))
              (\<lambda>(g, ns, st). card ((graph_nodes g \<union> set ns) - visited st)),
     case_sum (\<lambda>_. 1) (\<lambda>_. 0),
     case_sum (\<lambda>_. 0) (\<lambda>(g, ns, st). length ns)]", goal_cases)
  case 1
  show ?case by simp
next
  case (2 g node st)
  have "(graph_nodes g \<union> set (graph_get g node)) = graph_nodes g"
    using graph_get_nodes [of g node] by blast
  then show ?case by simp
next
  case (3 g neighbor rest st)
  have "graph_nodes g - insert neighbor (visited st)
          \<subset> (graph_nodes g \<union> set (neighbor # rest)) - visited st"
    using 3 by auto
  then have "card (graph_nodes g - insert neighbor (visited st))
          < card ((graph_nodes g \<union> set (neighbor # rest)) - visited st)"
    by (intro psubset_card_mono) (simp_all add: finite_graph_nodes)
  then show ?case by simp
next
  case (4 g neighbor rest st x y)
  have "visited st \<subseteq> visited y"
    using dfs_visited_mono_dom(1) [of g neighbor st] 4 by (metis snd_conv)
  then have "(graph_nodes g \<union> set rest) - visited y
          \<subseteq> (graph_nodes g \<union> set (neighbor # rest)) - visited st"
    by auto
  then have "card ((graph_nodes g \<union> set rest) - visited y)
          \<le> card ((graph_nodes g \<union> set (neighbor # rest)) - visited st)"
    by (intro card_mono) (simp_all add: finite_graph_nodes)
  then show ?case by auto
next
  case (5 g neighbor rest st)
  have "(graph_nodes g \<union> set rest) - visited st
          \<subseteq> (graph_nodes g \<union> set (neighbor # rest)) - visited st"
    by auto
  then have "card ((graph_nodes g \<union> set rest) - visited st)
          \<le> card ((graph_nodes g \<union> set (neighbor # rest)) - visited st)"
    by (intro card_mono) (simp_all add: finite_graph_nodes)
  then show ?case by auto
qed

declare unbounded_has_cycle.simps [simp del]

section \<open>The result and the instance state\<close>

lemma reset_eq: "reset v = \<lparr>self_errors = [], self_warnings = []\<rparr>"
  by (cases v) (simp add: reset_def)

lemma build_result_valid: "valid (build_result v) = (errors (build_result v) = [])"
  by (simp add: build_result_def)

lemma validate_syntax_build:
  "fst (validate_syntax lib v0 dag_code) = build_result (snd (validate_syntax lib v0 dag_code))"
  by (simp add: validate_syntax_def Let_def split: parse_outcome.splits)

lemma validate_syntax_stateless:
  "validate_syntax lib v dag_code = validate_syntax lib v' dag_code"
  unfolding validate_syntax_def reset_eq by (rule refl)

lemma validate_structure_stateless:
  "validate_structure lib v so = validate_structure lib v' so"
  unfolding validate_structure_def reset_eq by (rule refl)

section \<open>Findings appended by the sub-checks\<close>

lemma validator_eq_iff:
  "(v = \<lparr>self_errors = es, self_warnings = ws\<rparr>) = (self_errors v = es \<and> self_warnings v = ws)"
  by (cases v) auto

lemma add_error_simps [simp]:
  "self_errors (add_error e v) = self_errors v @ [e]"
  "self_warnings (add_error e v) = self_warnings v"
  by (simp_all add: add_error_def)

lemma add_warning_simps [simp]:
  "self_errors (add_warning e v) = self_errors v"
  "self_warnings (add_warning e v) = self_warnings v @ [e]"
  by (simp_all add: add_warning_def)

lemma emitsI:
  assumes "\<And>v. take (length (self_errors v)) (self_errors (f v)) = self_errors v
              \<and> list_all S (drop (length (self_errors v)) (self_errors (f v)))
              \<and> take (length (self_warnings v)) (self_warnings (f v)) = self_warnings v
              \<and> list_all S (drop (length (self_warnings v)) (self_warnings (f v)))"
  shows "emits S f"
  unfolding emits_def
proof
  fix v
  let ?es = "drop (length (self_errors v)) (self_errors (f v))"
  let ?ws = "drop (length (self_warnings v)) (self_warnings (f v))"
  have e: "self_errors (f v) = self_errors v @ ?es"
    using assms [of v] by (metis append_take_drop_id)
  have w: "self_warnings (f v) = self_warnings v @ ?ws"
    using assms [of v] by (metis append_take_drop_id)
  have "f v = \<lparr>self_errors = self_errors v @ ?es, self_warnings = self_warnings v @ ?ws\<rparr>"
    using e w by (simp add: validator_eq_iff)
  with assms [of v] show "\<exists>es ws. f v = \<lparr>self_errors = self_errors v @ es,
      self_warnings = self_warnings v @ ws\<rparr> \<and> list_all S es \<and> list_all S ws"
    by blast
qed

lemma emits_errors:
  assumes "emits S f"
  obtains es where "self_errors (f v) = self_errors v @ es" "list_all S es"
  using assms unfolding emits_def by (metis validator.select_convs(1))

lemma emits_warnings:
  assumes "emits S f"
  obtains ws where "self_warnings (f v) = self_warnings v @ ws" "list_all S ws"
  using assms unfolding emits_def by (metis validator.select_convs(2))

lemma emits_comp:
  assumes "emits S f" "emits S g"
  shows "emits S (\<lambda>v. g (f v))"
  unfolding emits_def
proof
  fix v
  obtain es ws where f: "f v = \<lparr>self_errors = self_errors v @ es, self_warnings = self_warnings v @ ws\<rparr>"
    "list_all S es" "list_all S ws"
    using assms(1) unfolding emits_def by blast
  obtain es' ws' where g: "g (f v) = \<lparr>self_errors = self_errors (f v) @ es', self_warnings = self_warnings (f v) @ ws'\<rparr>"
    "list_all S es'" "list_all S ws'"
    using assms(2) unfolding emits_def by blast
  have "g (f v) = \<lparr>self_errors = self_errors v @ (es @ es'), self_warnings = self_warnings v @ (ws @ ws')\<rparr>"
    using f(1) g(1) by simp
  moreover have "list_all S (es @ es')" "list_all S (ws @ ws')"
    using f g by simp_all
  ultimately show "\<exists>es ws. g (f v) = \<lparr>self_errors = self_errors v @ es,
      self_warnings = self_warnings v @ ws\<rparr> \<and> list_all S es \<and> list_all S ws"
    by blast
qed

lemma emits_id: "emits S (\<lambda>v. v)"
  by (rule emitsI) simp

lemma emits_mono: "emits S f \<Longrightarrow> (\<And>e. S e \<Longrightarrow> T e) \<Longrightarrow> emits T f"
  unfolding emits_def by (metis (mono_tags, lifting) list_all_iff)

lemma emits_fold:
  assumes "\<And>x. x \<in> set xs \<Longrightarrow> emits S (h x)"
  shows "emits S (fold h xs)"
  using assms
proof (induction xs)
  case Nil
  show ?case using emits_id [of S] by (simp add: id_def)
next
  case (Cons x xs)
  have "emits S (\<lambda>v. fold h xs (h x v))"
    by (rule emits_comp) (simp_all add: Cons)
  then show ?case by (simp add: comp_def)
qed

lemma emits_required: "emits (required_shape spec) (validate_required_fields spec)"
  by (rule emitsI)
     (simp add: validate_required_fields_def required_field_def required_shape_def
        field_finding_def)

lemma emits_dag_id: "emits dag_id_shape (validate_dag_id d)"
  by (rule emitsI)
     (simp add: validate_dag_id_def dag_id_shape_def field_finding_def Let_def
        split: option.splits)

lemma emits_schedule: "emits schedule_shape (validate_schedule lib sch)"
  by (rule emitsI)
     (simp add: validate_schedule_def schedule_shape_def field_finding_def Let_def
        split: option.splits)

lemma emits_start_date: "emits start_date_shape (validate_start_date lib sd)"
  by (rule emitsI)
     (simp add: validate_start_date_def start_date_shape_def field_finding_def
        start_date_warning_def start_date_error_def split: option.splits)

lemma validate_task_fst:
  "fst (validate_task i t (ids, v)) = (case task_id t of None \<Rightarrow> ids | Some tid \<Rightarrow> insert tid ids)"
  by (simp add: validate_task_def Let_def split: option.splits)

lemma emits_validate_task: "emits tasks_shape (\<lambda>v. snd (validate_task i t (ids, v)))"
  by (rule emitsI)
     (simp add: validate_task_def tasks_shape_def field_finding_def params_warning_def Let_def
        split: option.splits)

lemma emits_tasks_loop: "emits tasks_shape (\<lambda>v. snd (validate_tasks_loop i ts (ids, v)))"
proof (induction ts arbitrary: i ids)
  case Nil
  show ?case by (simp add: emits_id)
next
  case (Cons t ts)
  let ?ids = "case task_id t of None \<Rightarrow> ids | Some tid \<Rightarrow> insert tid ids"
  have step: "validate_task i t (ids, v) = (?ids, snd (validate_task i t (ids, v)))" for v
    using validate_task_fst [of i t ids v] by (metis prod.collapse)
  have "emits tasks_shape
          (\<lambda>v. snd (validate_tasks_loop (Suc i) ts (?ids, snd (validate_task i t (ids, v)))))"
    by (rule emits_comp [OF emits_validate_task Cons.IH])
  then show ?case
    using step by simp
qed

lemma emits_tasks: "emits tasks_shape (validate_tasks tasks_opt)"
proof (cases tasks_opt)
  case None
  show ?thesis
    by (rule emitsI) (simp add: None validate_tasks_def tasks_shape_def field_finding_def)
next
  case (Some ts)
  show ?thesis
  proof (cases "ts = []")
    case True
    show ?thesis
      by (rule emitsI)
         (simp add: Some True validate_tasks_def tasks_shape_def field_finding_def)
  next
    case False
    have "validate_tasks tasks_opt = (\<lambda>v. snd (validate_tasks_loop 0 ts ({}, v)))"
      by (rule ext) (simp add: Some False validate_tasks_def)
    then show ?thesis by (simp add: emits_tasks_loop)
  qed
qed

lemma validate_connection_fst:
  "fst (validate_connection i c (ids, v)) = (case conn_id c of None \<Rightarrow> ids | Some cid \<Rightarrow> insert cid ids)"
  by (simp add: validate_connection_def Let_def split: option.splits)

lemma emits_validate_connection:
  "emits connections_shape (\<lambda>v. snd (validate_connection i c (ids, v)))"
  by (rule emitsI)
     (simp add: validate_connection_def connections_shape_def field_finding_def Let_def
        split: option.splits)

lemma emits_connections_loop:
  "emits connections_shape (\<lambda>v. snd (validate_connections_loop i cs (ids, v)))"
proof (induction cs arbitrary: i ids)
  case Nil
  show ?case by (simp add: emits_id)
next
  case (Cons c cs)
  let ?ids = "case conn_id c of None \<Rightarrow> ids | Some cid \<Rightarrow> insert cid ids"
  have step: "validate_connection i c (ids, v) = (?ids, snd (validate_connection i c (ids, v)))" for v
    using validate_connection_fst [of i c ids v] by (metis prod.collapse)
  have "emits connections_shape
          (\<lambda>v. snd (validate_connections_loop (Suc i) cs (?ids, snd (validate_connection i c (ids, v)))))"
    by (rule emits_comp [OF emits_validate_connection Cons.IH])
  then show ?case
    using step by simp
qed

lemma emits_connections: "emits connections_shape (validate_connections cs)"
proof -
  have "validate_connections cs = (\<lambda>v. snd (validate_connections_loop 0 cs ({}, v)))"
    by (rule ext) (simp add: validate_connections_def)
  then show ?thesis by (simp add: emits_connections_loop)
qed

lemma validate_variable_fst:
  "fst (validate_variable i x (ids, v)) = (case var_key x of None \<Rightarrow> ids | Some k \<Rightarrow> insert k ids)"
  by (simp add: validate_variable_def split: option.splits)

lemma emits_validate_variable:
  "emits variables_shape (\<lambda>v. snd (validate_variable i x (ids, v)))"
  by (rule emitsI)
     (simp add: validate_variable_def variables_shape_def field_finding_def
        split: option.splits)

lemma emits_variables_loop:
  "emits variables_shape (\<lambda>v. snd (validate_variables_loop i xs (ids, v)))"
proof (induction xs arbitrary: i ids)
  case Nil
  show ?case by (simp add: emits_id)
next
  case (Cons x xs)
  let ?ids = "case var_key x of None \<Rightarrow> ids | Some k \<Rightarrow> insert k ids"
  have step: "validate_variable i x (ids, v) = (?ids, snd (validate_variable i x (ids, v)))" for v
    using validate_variable_fst [of i x ids v] by (metis prod.collapse)
  have "emits variables_shape
          (\<lambda>v. snd (validate_variables_loop (Suc i) xs (?ids, snd (validate_variable i x (ids, v)))))"
    by (rule emits_comp [OF emits_validate_variable Cons.IH])
  then show ?case
    using step by simp
qed

lemma emits_variables: "emits variables_shape (validate_variables xs)"
proof -
  have "validate_variables xs = (\<lambda>v. snd (validate_variables_loop 0 xs ({}, v)))"
    by (rule ext) (simp add: validate_variables_def)
  then show ?thesis by (simp add: emits_variables_loop)
qed

lemma emits_check_dep: "emits dependency_shape (check_dep ids tid dep)"
  by (rule emitsI)
     (simp add: check_dep_def dependency_shape_def nonexistent_error_def
        self_dependency_error_def field_finding_def Let_def)

lemma emits_check_task_deps: "emits dependency_shape (check_task_deps ids t)"
proof (cases "task_id t")
  case None
  then have "check_task_deps ids t = (\<lambda>v. v)"
    by (intro ext) (simp add: check_task_deps_def)
  then show ?thesis by (simp add: emits_id)
next
  case (Some tid)
  then have "check_task_deps ids t = fold (check_dep ids tid) (deps t)"
    by (intro ext) (simp add: check_task_deps_def)
  then show ?thesis by (simp add: emits_fold emits_check_dep)
qed

lemma emits_filter_errors:
  assumes "emits S f" and "\<And>e. S e \<Longrightarrow> \<not> P e"
  shows "filter P (self_errors (f v)) = filter P (self_errors v)"
proof -
  obtain es where es: "self_errors (f v) = self_errors v @ es" "list_all S es"
    using assms(1) by (rule emits_errors)
  have "filter P es = []"
    using es(2) assms(2) by (simp add: filter_empty_conv list_all_iff)
  with es(1) show ?thesis by simp
qed

lemma emits_filter_warnings:
  assumes "emits S f" and "\<And>e. S e \<Longrightarrow> \<not> P e"
  shows "filter P (self_warnings (f v)) = filter P (self_warnings v)"
proof -
  obtain ws where ws: "self_warnings (f v) = self_warnings v @ ws" "list_all S ws"
    using assms(1) by (rule emits_warnings)
  have "filter P ws = []"
    using ws(2) assms(2) by (simp add: filter_empty_conv list_all_iff)
  with ws(1) show ?thesis by simp
qed

section \<open>Strings, parameter warnings and dependency errors\<close>

subsection \<open>Whitespace, decimal names, parameter warnings\<close>

lemma strip_whitespace:
  assumes "\<forall>c\<in>set s. py_isspace c"
  shows "py_strip s = []"
proof -
  have h: "dropWhile py_isspace s = []"
    using assms dropWhile_eq_Nil_conv [of py_isspace s] by blast
  show ?thesis unfolding py_strip_def h by simp
qed









subsection \<open>Dependency errors\<close>

lemma check_dep_fold:
  "self_errors (fold (check_dep ids tid) ds v)
     = self_errors v @ concat (map (dep_findings ids tid) ds)"
  by (induction ds arbitrary: v) (simp_all add: check_dep_def dep_findings_def Let_def)

lemma check_task_deps_errors:
  "self_errors (check_task_deps ids t v) = self_errors v @ task_dep_findings ids t"
  by (simp add: check_task_deps_def task_dep_findings_def check_dep_fold split: option.splits)

lemma check_task_deps_fold:
  "self_errors (fold (check_task_deps ids) ts v)
     = self_errors v @ concat (map (task_dep_findings ids) ts)"
  by (induction ts arbitrary: v) (simp_all add: check_task_deps_errors)


lemma dep_findings_type: "e \<in> set (dep_findings ids tid dep) \<Longrightarrow> ftype e = ''dependency''"
  by (auto simp: dep_findings_def nonexistent_error_def self_dependency_error_def
      field_finding_def split: if_splits)

lemma task_dep_findings_type: "e \<in> set (task_dep_findings ids t) \<Longrightarrow> ftype e = ''dependency''"
  by (auto simp: task_dep_findings_def dep_findings_type split: option.splits)

lemma dependency_findings_type:
  "e \<in> set (dependency_findings cyclic ts) \<Longrightarrow> ftype e = ''dependency''"
  by (auto simp: dependency_findings_def task_dep_findings_type circular_error_def
      field_finding_def split: if_splits)







lemma filter_through:
  assumes "\<And>x. P x \<Longrightarrow> Q x"
  shows "filter P xs = filter P (filter Q xs)"
  using assms by (induction xs) auto

lemma dep_findings_circular: "filter is_circular_error (dep_findings ids tid dep) = []"
  by (simp add: dep_findings_def is_circular_error_def nonexistent_error_def
      self_dependency_error_def field_finding_def)

lemma dependency_findings_circular:
  "filter is_circular_error (dependency_findings cyclic ts)
     = (if cyclic then [circular_error] else [])"
proof -
  have a: "filter is_circular_error (concat (map (dep_findings ids tid) ds)) = []" for ids tid ds
    by (induction ds) (simp_all add: dep_findings_circular)
  have "filter is_circular_error (concat (map (task_dep_findings ids) us)) = []" for ids us
    by (induction us) (simp_all add: task_dep_findings_def a split: option.splits)
  then show ?thesis
    by (simp add: dependency_findings_def is_circular_error_def circular_error_def
        field_finding_def)
qed

section \<open>Correctness of the depth-first search\<close>

text \<open>
  Every node on the recursion stack reaches the node being expanded, so a neighbour found
  on the stack closes a cycle; a node is finished only after all its neighbours are, so
  no finished node lies on a cycle.
\<close>

lemma closed_reach:
  assumes "\<forall>u\<in>D. \<forall>d. (u, d) \<in> E \<longrightarrow> d \<in> D" and "(a, b) \<in> E\<^sup>*" and "a \<in> D"
  shows "b \<in> D"
  using assms(2,3,1) by (induction rule: rtrancl_induct) auto

lemma unbounded_has_cycle_post_aux:
  assumes E: "E = graph_edges g"
    and node: "node \<notin> visited st"
    and inv: "dfs_inv E st"
    and loop: "dfs_post E
         (st\<lparr>visited := insert node (visited st), rec_stack := insert node (rec_stack st)\<rparr>)
         (set (graph_get g node))
         (unbounded_visit_neighbors g (graph_get g node)
            (st\<lparr>visited := insert node (visited st), rec_stack := insert node (rec_stack st)\<rparr>))"
  shows "dfs_post E st {node} (unbounded_has_cycle g node st)"
proof -
  let ?st1 = "st\<lparr>visited := insert node (visited st), rec_stack := insert node (rec_stack st)\<rparr>"
  obtain b st' where r: "unbounded_visit_neighbors g (graph_get g node) ?st1 = (b, st')"
    by (cases "unbounded_visit_neighbors g (graph_get g node) ?st1")
  show ?thesis
  proof (cases b)
    case True
    with r loop show ?thesis
      by (subst unbounded_has_cycle.simps) (simp add: dfs_post_def)
  next
    case False
    with r loop have inv': "dfs_inv E st'" and vis: "insert node (visited st) \<subseteq> visited st'"
      and stack: "rec_stack st' = insert node (rec_stack st)"
      and adj: "set (graph_get g node) \<subseteq> finished st'"
      by (simp_all add: dfs_post_def)
    let ?st2 = "st'\<lparr>rec_stack := rec_stack st' - {node}\<rparr>"
    have nS: "node \<notin> rec_stack st"
      using node inv by (auto simp: dfs_inv_def)
    have stack2: "rec_stack ?st2 = rec_stack st"
      using stack nS by auto
    have fin2: "finished ?st2 = insert node (finished st')"
      using stack nS vis by (auto simp: finished_def)
    have nF: "node \<notin> finished st'"
      using stack by (simp add: finished_def)
    have closed': "\<forall>u\<in>finished st'. \<forall>d. (u, d) \<in> E \<longrightarrow> d \<in> finished st'"
      using inv' by (simp add: dfs_inv_def)
    have succ: "(node, d) \<in> E \<Longrightarrow> d \<in> finished st'" for d
      using adj E by (auto simp: graph_edges_def)
    have nocyc: "(node, node) \<notin> E\<^sup>+"
    proof
      assume "(node, node) \<in> E\<^sup>+"
      then obtain d where d: "(node, d) \<in> E" "(d, node) \<in> E\<^sup>*"
        by (meson tranclD)
      from closed_reach [OF closed' d(2) succ [OF d(1)]] nF show False by simp
    qed
    have "dfs_inv E ?st2"
      unfolding dfs_inv_def fin2 stack2
      using inv inv' vis succ nocyc closed' stack
      by (auto simp: dfs_inv_def)
    moreover have "visited st \<subseteq> visited ?st2"
      using vis by auto
    moreover have "{node} \<subseteq> finished ?st2"
      using fin2 by simp
    ultimately have "dfs_post E st {node} (False, ?st2)"
      using stack2 by (simp add: dfs_post_def)
    with r False show ?thesis
      by (subst unbounded_has_cycle.simps) simp
  qed
qed

lemma finished_mono:
  "visited st \<subseteq> visited st' \<Longrightarrow> rec_stack st' = rec_stack st \<Longrightarrow> finished st \<subseteq> finished st'"
  by (auto simp: finished_def)

lemma dfs_correct:
  "E = graph_edges g \<Longrightarrow> node \<notin> visited st \<Longrightarrow> dfs_inv E st \<Longrightarrow>
     (\<forall>s\<in>rec_stack st. (s, node) \<in> E\<^sup>*) \<Longrightarrow>
     dfs_post E st {node} (unbounded_has_cycle g node st)"
  "E = graph_edges g \<Longrightarrow> dfs_inv E st \<Longrightarrow>
     (\<forall>u. u \<in> rec_stack st \<longrightarrow> set ns \<subseteq> set (graph_get g u) \<longrightarrow>
          (\<forall>s\<in>rec_stack st. (s, u) \<in> E\<^sup>*) \<longrightarrow>
          dfs_post E st (set ns) (unbounded_visit_neighbors g ns st))"
proof (induction g node st and g ns st rule: unbounded_has_cycle_unbounded_visit_neighbors.induct)
  case (1 g node st)
  let ?st1 = "st\<lparr>visited := insert node (visited st), rec_stack := insert node (rec_stack st)\<rparr>"
  have nS: "node \<notin> rec_stack st"
    using 1(3,4) by (auto simp: dfs_inv_def)
  have fin1: "finished ?st1 = finished st"
    using 1(3) by (auto simp: finished_def)
  have inv1: "dfs_inv E ?st1"
    using 1(4) unfolding dfs_inv_def fin1 by auto
  have reach1: "\<forall>s\<in>rec_stack ?st1. (s, node) \<in> E\<^sup>*"
    using 1(5) by auto
  have "dfs_post E ?st1 (set (graph_get g node)) (unbounded_visit_neighbors g (graph_get g node) ?st1)"
    using 1(1) [OF 1(2) inv1] reach1 by simp
  then show ?case
    by (rule unbounded_has_cycle_post_aux [OF 1(2) 1(3) 1(4)])
next
  case (2 g st)
  then show ?case by (simp add: dfs_post_def)
next
  case (3 g neighbor rest st)
  show ?case
  proof (intro allI impI)
    fix u
    assume u: "u \<in> rec_stack st"
      and sub: "set (neighbor # rest) \<subseteq> set (graph_get g u)"
      and reach: "\<forall>s\<in>rec_stack st. (s, u) \<in> E\<^sup>*"
    have edge: "(u, neighbor) \<in> E"
      using sub 3(4) by (simp add: graph_edges_def)
    have sub': "set rest \<subseteq> set (graph_get g u)"
      using sub by simp
    show "dfs_post E st (set (neighbor # rest)) (unbounded_visit_neighbors g (neighbor # rest) st)"
    proof (cases "neighbor \<notin> visited st")
      case True
      have reachn: "\<forall>s\<in>rec_stack st. (s, neighbor) \<in> E\<^sup>*"
        using reach edge by (meson rtrancl.rtrancl_into_rtrancl)
      have post: "dfs_post E st {neighbor} (unbounded_has_cycle g neighbor st)"
        using 3(1) [OF True 3(4) True 3(5) reachn] .
      obtain b st1 where hc: "unbounded_has_cycle g neighbor st = (b, st1)"
        by (cases "unbounded_has_cycle g neighbor st")
      show ?thesis
      proof (cases b)
        case True
        with hc post \<open>neighbor \<notin> visited st\<close> show ?thesis
          by (simp add: dfs_post_def)
      next
        case False
        then have bF: "b = False" by simp
        from post hc False have inv1: "dfs_inv E st1" and vis1: "visited st \<subseteq> visited st1"
          and stack1: "rec_stack st1 = rec_stack st" and fin1: "neighbor \<in> finished st1"
          by (simp_all add: dfs_post_def)
        have "dfs_post E st1 (set rest) (unbounded_visit_neighbors g rest st1)"
          using 3(2) [OF True hc [symmetric] bF 3(4) inv1] u sub' reach stack1 by simp
        then have "dfs_post E st (set (neighbor # rest)) (unbounded_visit_neighbors g rest st1)"
          using vis1 stack1 fin1 finished_mono [of st1]
          by (auto simp: dfs_post_def split: prod.splits bool.splits)
        with hc False True show ?thesis by simp
      qed
    next
      case False
      then have vis: "neighbor \<in> visited st" by simp
      show ?thesis
      proof (cases "neighbor \<in> rec_stack st")
        case True
        then have "(neighbor, u) \<in> E\<^sup>*" using reach by simp
        with edge have "(u, u) \<in> E\<^sup>+" by (meson rtrancl_into_trancl2)
        then have "\<not> acyclic E" by (auto simp: acyclic_def)
        with vis True show ?thesis by (simp add: dfs_post_def)
      next
        case nst: False
        have fin: "neighbor \<in> finished st"
          using vis nst by (simp add: finished_def)
        have "dfs_post E st (set rest) (unbounded_visit_neighbors g rest st)"
          using 3(3) [OF False nst 3(4) 3(5)] u sub' reach by simp
        then have "dfs_post E st (set (neighbor # rest)) (unbounded_visit_neighbors g rest st)"
          using fin finished_mono [of st]
          by (auto simp: dfs_post_def split: prod.splits bool.splits)
        with vis nst show ?thesis by simp
      qed
    qed
  qed
qed

lemma unbounded_dfs_roots_correct:
  assumes "E = graph_edges g" and "dfs_inv E st" and "rec_stack st = {}"
  shows "if unbounded_dfs_roots g ns st then \<not> acyclic E
         else (\<exists>st'. dfs_inv E st' \<and> rec_stack st' = {} \<and> visited st \<subseteq> visited st'
                   \<and> set ns \<subseteq> visited st')"
  using assms(2,3)
proof (induction ns arbitrary: st)
  case Nil
  then show ?case by auto
next
  case (Cons node rest)
  show ?case
  proof (cases "node \<notin> visited st")
    case True
    have post: "dfs_post E st {node} (unbounded_has_cycle g node st)"
      using dfs_correct(1) [OF assms(1) True Cons.prems(1)] Cons.prems(2) by simp
    obtain b st1 where hc: "unbounded_has_cycle g node st = (b, st1)"
      by (cases "unbounded_has_cycle g node st")
    show ?thesis
    proof (cases b)
      case True
      with hc post \<open>node \<notin> visited st\<close> show ?thesis
        by (simp add: dfs_post_def)
    next
      case False
      from post hc False have inv1: "dfs_inv E st1" and vis1: "visited st \<subseteq> visited st1"
        and stack1: "rec_stack st1 = {}" and fin1: "node \<in> finished st1"
        using Cons.prems(2) by (simp_all add: dfs_post_def)
      have n1: "node \<in> visited st1"
        using fin1 by (simp add: finished_def)
      have eq: "unbounded_dfs_roots g (node # rest) st = unbounded_dfs_roots g rest st1"
        using hc False True by simp
      show ?thesis
        unfolding eq using Cons.IH [OF inv1 stack1] vis1 n1
        by (auto split: if_splits)
    qed
  next
    case False
    then have eq: "unbounded_dfs_roots g (node # rest) st = unbounded_dfs_roots g rest st"
      by simp
    show ?thesis
      unfolding eq using Cons.IH [OF Cons.prems] False
      by (auto split: if_splits)
  qed
qed

lemma edge_source_is_key:
  assumes "(u, d) \<in> graph_edges g"
  shows "u \<in> fst ` set g"
proof -
  from assms have "graph_get g u \<noteq> []"
    by (auto simp: graph_edges_def)
  then obtain ds where "map_of g u = Some ds"
    by (cases "map_of g u") (simp_all add: graph_get_def)
  then have "(u, ds) \<in> set g" by (rule map_of_SomeD)
  then show ?thesis by force
qed

text \<open>The search reports a cycle exactly when its graph has one.\<close>

lemma dfs_detects_cycles:
  "unbounded_dfs_roots g (map fst g) \<lparr>visited = {}, rec_stack = {}\<rparr> = (\<not> acyclic (graph_edges g))"
proof -
  let ?E = "graph_edges g"
  let ?st = "\<lparr>visited = {}, rec_stack = {}\<rparr>"
  have inv0: "dfs_inv ?E ?st"
    by (simp add: dfs_inv_def finished_def)
  note main = unbounded_dfs_roots_correct [OF refl inv0, of "map fst g"]
  show ?thesis
  proof (cases "unbounded_dfs_roots g (map fst g) ?st")
    case True
    with main show ?thesis by simp
  next
    case False
    with main obtain st' where inv: "dfs_inv ?E st'" and stack: "rec_stack st' = {}"
      and keys: "fst ` set g \<subseteq> visited st'"
      by auto
    have "acyclic ?E"
      unfolding acyclic_def
    proof (intro allI notI)
      fix x
      assume cyc: "(x, x) \<in> ?E\<^sup>+"
      then obtain d where "(x, d) \<in> ?E" by (meson tranclD)
      then have "x \<in> fst ` set g" by (rule edge_source_is_key)
      then have "x \<in> finished st'"
        using keys stack by (auto simp: finished_def)
      with inv cyc show False by (auto simp: dfs_inv_def)
    qed
    with False show ?thesis by simp
  qed
qed

subsection \<open>The adjacency dict and the declared graph\<close>

lemma find_append:
  "find P (xs @ ys) = (case find P xs of None \<Rightarrow> find P ys | Some x \<Rightarrow> Some x)"
  by (induction xs) auto

lemma map_of_build_graph_fold:
  "map_of (fold (\<lambda>t g. case task_id t of None \<Rightarrow> g | Some tid \<Rightarrow> AList.update tid (deps t) g) ts g) u
     = (case last_declared ts u of None \<Rightarrow> map_of g u | Some t \<Rightarrow> Some (deps t))"
proof (induction ts arbitrary: g)
  case Nil
  show ?case by (simp add: last_declared_def)
next
  case (Cons t ts)
  have "last_declared (t # ts) u
      = (case last_declared ts u of
           None \<Rightarrow> if task_id t = Some u then Some t else None
         | Some x \<Rightarrow> Some x)"
    by (auto simp: last_declared_def find_append split: option.splits)
  then show ?case
    by (cases "task_id t") (auto simp: Cons.IH update_conv' split: option.splits)
qed

lemma graph_get_build_graph:
  "graph_get (build_graph ts) u = (case last_declared ts u of None \<Rightarrow> [] | Some t \<Rightarrow> deps t)"
  by (simp add: graph_get_def build_graph_def map_of_build_graph_fold split: option.splits)

lemma graph_edges_build_graph: "graph_edges (build_graph ts) = effective_edges ts"
proof -
  have "(d \<in> set (graph_get (build_graph ts) u))
      = (\<exists>t. last_declared ts u = Some t \<and> d \<in> set (deps t))" for u d
    by (cases "last_declared ts u") (simp_all add: graph_get_build_graph)
  then show ?thesis
    by (simp add: graph_edges_def effective_edges_def)
qed

text \<open>The graph of the adjacency dict is the last-declaration graph.\<close>

lemma has_circular_iff:
  "unbounded_has_circular ts = (\<not> acyclic (effective_edges ts))"
  by (simp add: unbounded_has_circular_def Let_def dfs_detects_cycles graph_edges_build_graph)

lemma last_declared_in:
  assumes "last_declared ts u = Some t"
  shows "t \<in> set ts \<and> task_id t = Some u"
proof -
  from assms have "find (\<lambda>t. task_id t = Some u) (rev ts) = Some t"
    by (simp add: last_declared_def)
  then obtain i where "i < length (rev ts)" "task_id (rev ts ! i) = Some u" "t = rev ts ! i"
    unfolding find_Some_iff by blast
  then show ?thesis
    using nth_mem [of i "rev ts"] by simp
qed

lemma effective_subset_declared: "effective_edges ts \<subseteq> dep_edges ts"
proof
  fix e
  assume "e \<in> effective_edges ts"
  then obtain u d t where "e = (u, d)" "last_declared ts u = Some t" "d \<in> set (deps t)"
    by (auto simp: effective_edges_def)
  with last_declared_in [of ts u t] show "e \<in> dep_edges ts"
    by (auto simp: dep_edges_def)
qed

lemma last_declared_snoc:
  "last_declared (ts @ [x]) u = (if task_id x = Some u then Some x else last_declared ts u)"
  by (simp add: last_declared_def)

lemma task_id_in_set:
  "t \<in> set ts \<Longrightarrow> task_id t = Some u \<Longrightarrow> u \<in> set (List.map_filter task_id ts)"
  by (force simp: List.map_filter_def)

lemma last_declared_unique:
  assumes "distinct (List.map_filter task_id ts)" and "t \<in> set ts" and "task_id t = Some u"
  shows "last_declared ts u = Some t"
  using assms
proof (induction ts rule: rev_induct)
  case Nil
  then show ?case by simp
next
  case (snoc x xs)
  have d: "distinct (List.map_filter task_id xs)"
    using snoc.prems(1) by (simp add: List.map_filter_def)
  show ?case
  proof (cases "task_id x = Some u")
    case True
    have "t \<notin> set xs"
    proof
      assume "t \<in> set xs"
      then have "u \<in> set (List.map_filter task_id xs)"
        using snoc.prems(3) by (rule task_id_in_set)
      with snoc.prems(1) True show False
        by (simp add: List.map_filter_def)
    qed
    with snoc.prems(2) have "t = x" by simp
    with True show ?thesis by (simp add: last_declared_snoc)
  next
    case False
    with snoc.prems(2,3) have "t \<in> set xs" by auto
    with False snoc.IH [OF d _ snoc.prems(3)] show ?thesis
      by (simp add: last_declared_snoc)
  qed
qed

text \<open>With unique ids the two graphs are the same.\<close>

lemma unique_ids_effective_edges:
  assumes "distinct (List.map_filter task_id ts)"
  shows "effective_edges ts = dep_edges ts"
proof
  show "effective_edges ts \<subseteq> dep_edges ts"
    by (rule effective_subset_declared)
  show "dep_edges ts \<subseteq> effective_edges ts"
  proof
    fix e
    assume "e \<in> dep_edges ts"
    then obtain u d t where "e = (u, d)" "t \<in> set ts" "task_id t = Some u" "d \<in> set (deps t)"
      by (auto simp: dep_edges_def)
    with last_declared_unique [OF assms, of t u] show "e \<in> effective_edges ts"
      by (auto simp: effective_edges_def)
  qed
qed

section \<open>The search within the recursion budget\<close>

text \<open>
  The bounded search never returns anything but what the unbounded one returns; it does
  return when the budget covers the nodes not yet visited, since every nested call is on
  a node that is not yet visited.
\<close>

lemma unbounded_visited_mono:
  "visited st \<subseteq> visited (snd (unbounded_has_cycle g node st))"
  "visited st \<subseteq> visited (snd (unbounded_visit_neighbors g ns st))"
proof (induction g node st and g ns st rule: unbounded_has_cycle_unbounded_visit_neighbors.induct)
  case (1 g node st)
  then show ?case
    by (subst unbounded_has_cycle.simps) (auto split: prod.splits bool.splits)
next
  case (2 g st)
  show ?case by simp
next
  case (3 g neighbor rest st)
  show ?case
  proof (cases "neighbor \<notin> visited st")
    case True
    obtain b st' where hc: "unbounded_has_cycle g neighbor st = (b, st')"
      by (cases "unbounded_has_cycle g neighbor st")
    have m1: "visited st \<subseteq> visited st'"
      using 3(1) [OF True] hc by simp
    show ?thesis
    proof (cases b)
      case True
      with \<open>neighbor \<notin> visited st\<close> hc m1 show ?thesis by simp
    next
      case False
      then have bF: "b = False" by simp
      have "visited st' \<subseteq> visited (snd (unbounded_visit_neighbors g rest st'))"
        using 3(2) [OF \<open>neighbor \<notin> visited st\<close> hc [symmetric] bF] .
      with False \<open>neighbor \<notin> visited st\<close> hc m1 show ?thesis by auto
    qed
  next
    case False
    with 3(3) show ?thesis
      by (cases "neighbor \<in> rec_stack st") simp_all
  qed
qed

lemma bounded_sound:
  "has_cycle n g node st = Inr r \<Longrightarrow> r = unbounded_has_cycle g node st"
  "visit_neighbors n g ns st = Inr r \<Longrightarrow> r = unbounded_visit_neighbors g ns st"
proof (induction n g node st and n g ns st arbitrary: r and r rule: has_cycle_visit_neighbors.induct)
  case (1 g node st)
  then show ?case by simp
next
  case (2 n g node st)
  let ?st1 = "st\<lparr>visited := insert node (visited st), rec_stack := insert node (rec_stack st)\<rparr>"
  from 2(2) obtain q where q: "visit_neighbors n g (graph_get g node) ?st1 = Inr q"
    by (cases "visit_neighbors n g (graph_get g node) ?st1") simp_all
  have "q = unbounded_visit_neighbors g (graph_get g node) ?st1"
    using 2(1) [OF q] .
  with 2(2) q show ?case
    by (subst unbounded_has_cycle.simps) (auto split: prod.splits bool.splits)
next
  case (3 n g st)
  then show ?case by simp
next
  case (4 n g neighbor rest st)
  show ?case
  proof (cases "neighbor \<notin> visited st")
    case True
    from 4(4) True obtain q where q: "has_cycle n g neighbor st = Inr q"
      by (cases "has_cycle n g neighbor st") simp_all
    have qe: "q = unbounded_has_cycle g neighbor st"
      using 4(1) [OF True q] .
    obtain b st' where bs: "q = (b, st')" by (cases q)
    show ?thesis
    proof (cases b)
      case True
      have "r = (True, st')"
        using 4(4) \<open>neighbor \<notin> visited st\<close> q bs True by simp
      moreover have "unbounded_visit_neighbors g (neighbor # rest) st = (True, st')"
        using \<open>neighbor \<notin> visited st\<close> qe [symmetric] bs True by simp
      ultimately show ?thesis by simp
    next
      case False
      then have nb: "b = False" by simp
      have "visit_neighbors n g rest st' = Inr r"
        using 4(4) \<open>neighbor \<notin> visited st\<close> q bs False by simp
      then have "r = unbounded_visit_neighbors g rest st'"
        by (rule 4(2) [OF \<open>neighbor \<notin> visited st\<close> q bs [symmetric] nb])
      moreover have "unbounded_visit_neighbors g (neighbor # rest) st
          = unbounded_visit_neighbors g rest st'"
        using \<open>neighbor \<notin> visited st\<close> qe [symmetric] bs False by simp
      ultimately show ?thesis by simp
    qed
  next
    case False
    show ?thesis
    proof (cases "neighbor \<in> rec_stack st")
      case True
      with 4(4) False show ?thesis by simp
    next
      case nst: False
      with 4(4) False have "visit_neighbors n g rest st = Inr r" by simp
      then have "r = unbounded_visit_neighbors g rest st"
        using 4(3) [OF False nst] by simp
      with False nst show ?thesis by simp
    qed
  qed
qed

lemma bounded_complete:
  "finite U \<Longrightarrow> graph_nodes g \<subseteq> U \<Longrightarrow> node \<in> U \<Longrightarrow> node \<notin> visited st \<Longrightarrow>
     card (U - visited st) \<le> n \<Longrightarrow>
     has_cycle n g node st = Inr (unbounded_has_cycle g node st)"
  "finite U \<Longrightarrow> graph_nodes g \<subseteq> U \<Longrightarrow> set ns \<subseteq> U \<Longrightarrow>
     card (U - visited st) \<le> n \<Longrightarrow>
     visit_neighbors n g ns st = Inr (unbounded_visit_neighbors g ns st)"
proof (induction n g node st and n g ns st rule: has_cycle_visit_neighbors.induct)
  case (1 g node st)
  have "node \<in> U - visited st" using 1 by simp
  then have "card (U - visited st) \<noteq> 0"
    using 1(1) by (metis card_0_eq empty_iff finite_Diff)
  with 1(5) show ?case by simp
next
  case (2 n g node st)
  let ?st1 = "st\<lparr>visited := insert node (visited st), rec_stack := insert node (rec_stack st)\<rparr>"
  have "U - visited ?st1 = (U - visited st) - {node}" by auto
  moreover have "node \<in> U - visited st" using 2 by simp
  ultimately have "card (U - visited ?st1) = card (U - visited st) - 1"
    using 2(2) by (simp add: card_Diff_singleton)
  moreover have "card (U - visited st) \<noteq> 0"
    using \<open>node \<in> U - visited st\<close> 2(2) by (metis card_0_eq empty_iff finite_Diff)
  ultimately have c: "card (U - visited ?st1) \<le> n"
    using 2(6) by simp
  have sub: "set (graph_get g node) \<subseteq> U"
    using graph_get_nodes [of g node] 2(3) by blast
  have "visit_neighbors n g (graph_get g node) ?st1
      = Inr (unbounded_visit_neighbors g (graph_get g node) ?st1)"
    by (rule 2(1) [OF 2(2) 2(3) sub c])
  then show ?case
    by (subst unbounded_has_cycle.simps) (simp split: prod.splits bool.splits)
next
  case (3 n g st)
  show ?case by simp
next
  case (4 n g neighbor rest st)
  have nU: "neighbor \<in> U" and rU: "set rest \<subseteq> U"
    using 4(6) by simp_all
  show ?case
  proof (cases "neighbor \<notin> visited st")
    case True
    have hc: "has_cycle n g neighbor st = Inr (unbounded_has_cycle g neighbor st)"
      by (rule 4(1) [OF True 4(4) 4(5) nU True 4(7)])
    obtain b st' where bs: "unbounded_has_cycle g neighbor st = (b, st')"
      by (cases "unbounded_has_cycle g neighbor st")
    show ?thesis
    proof (cases b)
      case True
      with hc bs \<open>neighbor \<notin> visited st\<close> show ?thesis by simp
    next
      case False
      then have bF: "b = False" by simp
      have "visited st \<subseteq> visited st'"
        using unbounded_visited_mono(1) [of st g neighbor] bs by simp
      then have "U - visited st' \<subseteq> U - visited st" by auto
      then have "card (U - visited st') \<le> card (U - visited st)"
        using 4(4) by (intro card_mono) simp_all
      then have c: "card (U - visited st') \<le> n"
        using 4(7) by simp
      have "visit_neighbors n g rest st' = Inr (unbounded_visit_neighbors g rest st')"
        by (rule 4(2) [OF True hc bs [symmetric] bF 4(4) 4(5) rU c])
      with hc bs False \<open>neighbor \<notin> visited st\<close> show ?thesis by simp
    qed
  next
    case False
    show ?thesis
    proof (cases "neighbor \<in> rec_stack st")
      case True
      with False show ?thesis by simp
    next
      case nst: False
      have "visit_neighbors n g rest st = Inr (unbounded_visit_neighbors g rest st)"
        by (rule 4(3) [OF False nst 4(4) 4(5) rU 4(7)])
      with False nst show ?thesis by simp
    qed
  qed
qed

lemma dfs_roots_sound:
  "dfs_roots n g ns st = Inr b \<Longrightarrow> b = unbounded_dfs_roots g ns st"
proof (induction ns arbitrary: st)
  case Nil
  then show ?case by simp
next
  case (Cons node rest)
  show ?case
  proof (cases "node \<notin> visited st")
    case True
    from Cons.prems True obtain q where q: "has_cycle n g node st = Inr q"
      by (cases "has_cycle n g node st") simp_all
    then have qe: "unbounded_has_cycle g node st = q"
      using bounded_sound(1) by simp
    obtain c st' where cs: "q = (c, st')" by (cases q)
    show ?thesis
    proof (cases c)
      case True
      with Cons.prems \<open>node \<notin> visited st\<close> q qe cs show ?thesis by simp
    next
      case False
      with Cons.prems \<open>node \<notin> visited st\<close> q cs have "dfs_roots n g rest st' = Inr b"
        by simp
      then have "b = unbounded_dfs_roots g rest st'" by (rule Cons.IH)
      with \<open>node \<notin> visited st\<close> qe cs False show ?thesis by simp
    qed
  next
    case False
    with Cons.prems have "dfs_roots n g rest st = Inr b" by simp
    then have "b = unbounded_dfs_roots g rest st" by (rule Cons.IH)
    with False show ?thesis by simp
  qed
qed

lemma dfs_roots_complete:
  assumes "finite U" and "graph_nodes g \<subseteq> U"
  shows "set ns \<subseteq> U \<Longrightarrow> card (U - visited st) \<le> n \<Longrightarrow>
     dfs_roots n g ns st = Inr (unbounded_dfs_roots g ns st)"
proof (induction ns arbitrary: st)
  case Nil
  show ?case by simp
next
  case (Cons node rest)
  have nU: "node \<in> U" and rU: "set rest \<subseteq> U"
    using Cons.prems(1) by simp_all
  show ?case
  proof (cases "node \<notin> visited st")
    case True
    have hc: "has_cycle n g node st = Inr (unbounded_has_cycle g node st)"
      by (rule bounded_complete(1) [OF assms nU True Cons.prems(2)])
    obtain c st' where cs: "unbounded_has_cycle g node st = (c, st')"
      by (cases "unbounded_has_cycle g node st")
    show ?thesis
    proof (cases c)
      case True
      with hc cs \<open>node \<notin> visited st\<close> show ?thesis by simp
    next
      case False
      have "visited st \<subseteq> visited st'"
        using unbounded_visited_mono(1) [of st g node] cs by simp
      then have "U - visited st' \<subseteq> U - visited st" by auto
      then have "card (U - visited st') \<le> card (U - visited st)"
        using assms(1) by (intro card_mono) simp_all
      then have "card (U - visited st') \<le> n"
        using Cons.prems(2) by simp
      then have "dfs_roots n g rest st' = Inr (unbounded_dfs_roots g rest st')"
        by (rule Cons.IH [OF rU])
      with hc cs False \<open>node \<notin> visited st\<close> show ?thesis by simp
    qed
  next
    case False
    then show ?thesis
      using Cons.IH [OF rU Cons.prems(2)] by simp
  qed
qed

lemma has_circular_sound:
  "has_circular_dependencies n ts = Inr b \<Longrightarrow> b = unbounded_has_circular ts"
  using dfs_roots_sound
  by (simp add: has_circular_dependencies_def unbounded_has_circular_def Let_def)

lemma has_circular_complete:
  assumes "card (graph_nodes (build_graph ts)) \<le> n"
  shows "has_circular_dependencies n ts = Inr (unbounded_has_circular ts)"
proof -
  let ?g = "build_graph ts"
  have "set (map fst ?g) \<subseteq> graph_nodes ?g"
    by (auto simp: graph_nodes_def)
  then have "dfs_roots n ?g (map fst ?g) \<lparr>visited = {}, rec_stack = {}\<rparr>
      = Inr (unbounded_dfs_roots ?g (map fst ?g) \<lparr>visited = {}, rec_stack = {}\<rparr>)"
    using assms by (intro dfs_roots_complete [OF finite_graph_nodes subset_refl]) simp_all
  then show ?thesis
    by (simp add: has_circular_dependencies_def unbounded_has_circular_def Let_def)
qed

subsection \<open>A budget that covers the names of the task list\<close>

lemma distinct_build_graph_fold:
  "distinct (map fst g) \<Longrightarrow>
   distinct (map fst (fold (\<lambda>t g. case task_id t of None \<Rightarrow> g
                                 | Some tid \<Rightarrow> AList.update tid (deps t) g) ts g))"
  by (induction ts arbitrary: g) (simp_all add: distinct_update split: option.splits)

lemma build_graph_entry:
  assumes "(u, ds) \<in> set (build_graph ts)"
  shows "\<exists>t\<in>set ts. task_id t = Some u \<and> ds = deps t"
proof -
  have "distinct (map fst (build_graph ts))"
    unfolding build_graph_def by (rule distinct_build_graph_fold) simp
  with assms have "map_of (build_graph ts) u = Some ds" by simp
  then have "(case last_declared ts u of None \<Rightarrow> None | Some t \<Rightarrow> Some (deps t)) = Some ds"
    by (simp add: build_graph_def map_of_build_graph_fold split: option.splits)
  then obtain t where "last_declared ts u = Some t" "ds = deps t"
    by (auto split: option.splits)
  with last_declared_in [of ts u t] show ?thesis by auto
qed

lemma graph_nodes_build_graph: "graph_nodes (build_graph ts) \<subseteq> dependency_names ts"
proof
  fix x
  assume "x \<in> graph_nodes (build_graph ts)"
  then obtain u ds where e: "(u, ds) \<in> set (build_graph ts)" and x: "x = u \<or> x \<in> set ds"
    by (auto simp: graph_nodes_def)
  from build_graph_entry [OF e] obtain t
    where t: "t \<in> set ts" "task_id t = Some u" "ds = deps t" by blast
  from t(1,2) have "u \<in> task_id_set ts"
    unfolding task_id_set_def by (rule task_id_in_set)
  with x t show "x \<in> dependency_names ts"
    by (auto simp: dependency_names_def)
qed

lemma finite_dependency_names: "finite (dependency_names ts)"
  by (simp add: dependency_names_def task_id_set_def)

lemma has_circular_returns:
  assumes "card (dependency_names ts) \<le> n"
  shows "has_circular_dependencies n ts = Inr (unbounded_has_circular ts)"
proof -
  have "card (graph_nodes (build_graph ts)) \<le> card (dependency_names ts)"
    by (rule card_mono [OF finite_dependency_names graph_nodes_build_graph])
  with assms show ?thesis
    by (intro has_circular_complete) simp
qed

subsection \<open>A chain deeper than the budget\<close>








section \<open>The outcome of the structure check\<close>

text \<open>
  The call raises exactly when the search for cycles does; the state it leaves is that of
  the sub-checks in order, the dependency check last.
\<close>

lemma has_circular_dependencies_Nil: "has_circular_dependencies n [] = Inr False"
  by (simp add: has_circular_dependencies_def build_graph_def)


lemma validate_dependencies_errors:
  "self_errors (snd (validate_dependencies n (entry_get_default (tasks spec) []) v))
     = self_errors v
       @ dependency_findings (has_circular_dependencies n (spec_tasks spec) = Inr True)
           (spec_tasks spec)"
  by (cases "tasks spec")
     (simp_all add: validate_dependencies_def spec_tasks_def has_circular_dependencies_Nil Let_def
        dependency_findings_def check_task_deps_fold split: sum.splits bool.splits)

lemma emits_circular:
  "emits dependency_shape (\<lambda>v. if c then add_error circular_error v else v)"
  by (rule emitsI) (simp add: dependency_shape_def circular_error_def field_finding_def)

lemma emits_dependencies:
  "emits dependency_shape (\<lambda>v. snd (validate_dependencies n tasks_opt v))"
proof (cases tasks_opt)
  case None
  then have "(\<lambda>v. snd (validate_dependencies n tasks_opt v)) = (\<lambda>v. v)"
    by (intro ext) (simp add: validate_dependencies_def)
  then show ?thesis by (simp add: emits_id)
next
  case (Some ts)
  show ?thesis
  proof (cases "ts = []")
    case True
    with Some have "(\<lambda>v. snd (validate_dependencies n tasks_opt v)) = (\<lambda>v. v)"
      by (intro ext) (simp add: validate_dependencies_def)
    then show ?thesis by (simp add: emits_id)
  next
    case False
    with Some have "(\<lambda>v. snd (validate_dependencies n tasks_opt v)) =
        (\<lambda>v. (\<lambda>v1. if has_circular_dependencies n ts = Inr True
                     then add_error circular_error v1 else v1)
               (fold (check_task_deps (task_id_set ts)) ts v))"
      by (intro ext) (simp add: validate_dependencies_def Let_def split: sum.splits bool.splits)
    moreover have "emits dependency_shape
        (\<lambda>v. (\<lambda>v1. if has_circular_dependencies n ts = Inr True
                     then add_error circular_error v1 else v1)
               (fold (check_task_deps (task_id_set ts)) ts v))"
      by (rule emits_comp [OF emits_fold emits_circular]) (rule emits_check_task_deps)
    ultimately show ?thesis by simp
  qed
qed

lemma structure_root:
  assumes "so = None \<or> (\<exists>spec. so = Some spec \<and> spec_is_empty spec)"
  shows "validate_structure lib v0 so
           = (Inr \<lparr>valid = False, errors = [root_error], warnings = []\<rparr>,
              \<lparr>self_errors = [root_error], self_warnings = []\<rparr>)"
  using assms unfolding validate_structure_def reset_eq
  by (auto simp: add_error_def build_result_def Let_def)

lemma structure_chain:
  assumes "\<not> spec_is_empty spec"
  shows "validate_structure lib v0 (Some spec) =
     (case validate_dependencies (recursion_budget lib) (entry_get_default (tasks spec) [])
             (before_dependencies lib spec) of
        (Some e, v8) \<Rightarrow> (Inl e, v8)
      | (None, v8) \<Rightarrow> (Inr (build_result v8), v8))"
  using assms unfolding validate_structure_def reset_eq before_dependencies_def
  by (simp add: Let_def)

lemma structure_state:
  assumes "\<not> spec_is_empty spec"
  shows "snd (validate_structure lib v0 (Some spec))
           = snd (validate_dependencies (recursion_budget lib) (entry_get_default (tasks spec) [])
                    (before_dependencies lib spec))"
  unfolding structure_chain [OF assms] by (simp split: prod.splits option.splits)


lemma structure_result:
  "fst (validate_structure lib v0 so) = Inr r \<Longrightarrow>
   r = build_result (snd (validate_structure lib v0 so))"
  unfolding validate_structure_def
  by (auto simp: Let_def split: option.splits if_splits prod.splits)

lemma reported_errors_eq:
  "reported_errors (fst (validate_structure lib v0 so))
     = (if returns (fst (validate_structure lib v0 so))
        then self_errors (snd (validate_structure lib v0 so)) else [])"
  using structure_result [of lib v0 so]
  by (cases "fst (validate_structure lib v0 so)")
     (simp_all add: reported_errors_def returns_def build_result_def)

lemma reported_warnings_eq:
  "reported_warnings (fst (validate_structure lib v0 so))
     = (if returns (fst (validate_structure lib v0 so))
        then self_warnings (snd (validate_structure lib v0 so)) else [])"
  using structure_result [of lib v0 so]
  by (cases "fst (validate_structure lib v0 so)")
     (simp_all add: reported_warnings_def returns_def build_result_def)

subsection \<open>Findings of one kind in the state after the call\<close>



lemma dag_id_findings:
  assumes "dag_id spec = Present []"
  shows "filter about_dag_id (self_errors (snd (validate_structure lib v (Some spec)))) = []"
    and "filter about_dag_id (self_warnings (snd (validate_structure lib v (Some spec)))) = []"
proof -
  have ne: "\<not> spec_is_empty spec"
    using assms by (simp add: spec_is_empty_def)
  have id: "validate_dag_id (entry_get (dag_id spec)) = (\<lambda>v. v)"
    using assms by (intro ext) (simp add: validate_dag_id_def)
  have r: "required_shape spec e \<Longrightarrow> \<not> about_dag_id e" for e
    using assms by (auto simp: required_shape_def about_dag_id_def)
  have s: "schedule_shape e \<Longrightarrow> \<not> about_dag_id e" for e
    by (auto simp: schedule_shape_def about_dag_id_def)
  have d: "start_date_shape e \<Longrightarrow> \<not> about_dag_id e" for e
    by (auto simp: start_date_shape_def about_dag_id_def)
  have t: "tasks_shape e \<Longrightarrow> \<not> about_dag_id e" for e
    by (auto simp: tasks_shape_def about_dag_id_def)
  have c: "connections_shape e \<Longrightarrow> \<not> about_dag_id e" for e
    by (auto simp: connections_shape_def about_dag_id_def)
  have x: "variables_shape e \<Longrightarrow> \<not> about_dag_id e" for e
    by (auto simp: variables_shape_def about_dag_id_def)
  have p: "dependency_shape e \<Longrightarrow> \<not> about_dag_id e" for e
    by (auto simp: dependency_shape_def about_dag_id_def)
  show "filter about_dag_id (self_errors (snd (validate_structure lib v (Some spec)))) = []"
    by (simp add: structure_state [OF ne] before_dependencies_def id
        emits_filter_errors [OF emits_dependencies p]
        emits_filter_errors [OF emits_variables x]
        emits_filter_errors [OF emits_connections c]
        emits_filter_errors [OF emits_tasks t]
        emits_filter_errors [OF emits_start_date d]
        emits_filter_errors [OF emits_schedule s]
        emits_filter_errors [OF emits_required r])
  show "filter about_dag_id (self_warnings (snd (validate_structure lib v (Some spec)))) = []"
    by (simp add: structure_state [OF ne] before_dependencies_def id
        emits_filter_warnings [OF emits_dependencies p]
        emits_filter_warnings [OF emits_variables x]
        emits_filter_warnings [OF emits_connections c]
        emits_filter_warnings [OF emits_tasks t]
        emits_filter_warnings [OF emits_start_date d]
        emits_filter_warnings [OF emits_schedule s]
        emits_filter_warnings [OF emits_required r])
qed

lemma dependency_type_errors:
  "filter (\<lambda>e. ftype e = ''dependency'') (self_errors (snd (validate_structure lib v (Some spec))))
     = dependency_findings
         (has_circular_dependencies (recursion_budget lib) (spec_tasks spec) = Inr True)
         (spec_tasks spec)"
proof (cases "spec_is_empty spec")
  case True
  then have "tasks spec = Absent"
    by (cases "tasks spec") (simp_all add: spec_is_empty_def)
  then have "spec_tasks spec = []"
    by (simp add: spec_tasks_def)
  then have "dependency_findings
         (has_circular_dependencies (recursion_budget lib) (spec_tasks spec) = Inr True)
         (spec_tasks spec) = []"
    by (simp add: dependency_findings_def has_circular_dependencies_Nil)
  moreover have "snd (validate_structure lib v (Some spec))
      = \<lparr>self_errors = [root_error], self_warnings = []\<rparr>"
    using True by (subst structure_root) simp_all
  ultimately show ?thesis
    by (simp add: root_error_def field_finding_def)
next
  case ne: False
  let ?P = "\<lambda>e. ftype e = ''dependency''"
  have r: "required_shape spec e \<Longrightarrow> \<not> ?P e" for e
    by (auto simp: required_shape_def)
  have i: "dag_id_shape e \<Longrightarrow> \<not> ?P e" for e
    by (auto simp: dag_id_shape_def)
  have s: "schedule_shape e \<Longrightarrow> \<not> ?P e" for e
    by (auto simp: schedule_shape_def)
  have a: "start_date_shape e \<Longrightarrow> \<not> ?P e" for e
    by (auto simp: start_date_shape_def)
  have t: "tasks_shape e \<Longrightarrow> \<not> ?P e" for e
    by (auto simp: tasks_shape_def)
  have c: "connections_shape e \<Longrightarrow> \<not> ?P e" for e
    by (auto simp: connections_shape_def)
  have x: "variables_shape e \<Longrightarrow> \<not> ?P e" for e
    by (auto simp: variables_shape_def)
  have all_dep: "filter ?P (dependency_findings b ts) = dependency_findings b ts" for b ts
    using dependency_findings_type [of _ b ts] by (simp add: filter_id_conv)
  show ?thesis
    by (simp add: structure_state [OF ne] validate_dependencies_errors all_dep
        before_dependencies_def
        emits_filter_errors [OF emits_variables x]
        emits_filter_errors [OF emits_connections c]
        emits_filter_errors [OF emits_tasks t]
        emits_filter_errors [OF emits_start_date a]
        emits_filter_errors [OF emits_schedule s]
        emits_filter_errors [OF emits_dag_id i]
        emits_filter_errors [OF emits_required r])
qed



lemma circular_errors:
  "filter is_circular_error (self_errors (snd (validate_structure lib v (Some spec))))
     = (if has_circular_dependencies (recursion_budget lib) (spec_tasks spec) = Inr True
        then [circular_error] else [])"
proof -
  have "filter is_circular_error (self_errors (snd (validate_structure lib v (Some spec))))
      = filter is_circular_error (filter (\<lambda>e. ftype e = ''dependency'')
          (self_errors (snd (validate_structure lib v (Some spec)))))"
    by (rule filter_through) (simp add: is_circular_error_def)
  then show ?thesis
    by (simp only: dependency_type_errors dependency_findings_circular)
qed


lemma acyclic_not_reported:
  assumes "acyclic (dep_edges ts)"
  shows "has_circular_dependencies n ts \<noteq> Inr True"
proof
  assume "has_circular_dependencies n ts = Inr True"
  then have "unbounded_has_circular ts"
    using has_circular_sound by blast
  then have "\<not> acyclic (effective_edges ts)"
    by (simp add: has_circular_iff)
  with assms acyclic_subset [OF _ effective_subset_declared] show False
    by blast
qed



subsection \<open>Task lists used as examples\<close>

lemma dependency_names_bound:
  "card (dependency_names ts) \<le> length ts + length (concat (map deps ts))"
proof -
  have "dependency_names ts = set (List.map_filter task_id ts @ concat (map deps ts))"
    by (auto simp: dependency_names_def task_id_set_def)
  then have "card (dependency_names ts)
      \<le> length (List.map_filter task_id ts) + length (concat (map deps ts))"
    using card_length [of "List.map_filter task_id ts @ concat (map deps ts)"] by simp
  moreover have "length (List.map_filter task_id ts) \<le> length ts"
    by (simp add: List.map_filter_def)
  ultimately show ?thesis by simp
qed





section \<open>Properties of the validator\<close>

subsection \<open>Cycles\<close>




text \<open>
  C2. When the declared dependency graph (every task's dependencies list, dangling
  references included) has no directed cycle, the call reports no circular-dependency
  error, and none is appended to the error list of the instance.
\<close>

theorem acyclic_no_circular_error:
  assumes "acyclic (dep_edges (spec_tasks spec))"
  shows "filter is_circular_error (reported_errors (fst (validate_structure lib v (Some spec))))
           = []
       \<and> filter is_circular_error (self_errors (snd (validate_structure lib v (Some spec))))
           = []"
  using acyclic_not_reported [OF assms, of "recursion_budget lib"]
  by (simp add: reported_errors_eq circular_errors)

text \<open>C2 on an acyclic graph with two dangling references.\<close>

theorem acyclic_no_circular_error_witness:
  "filter is_circular_error (reported_errors (fst (validate_structure sample_library
      fresh_validator
      (Some (daily_spec ''test_dag''
         [bash_task ''a'' [''ghost''], bash_task ''b'' [''a'', ''phantom'']]))))) = []
   \<and> filter is_circular_error (self_errors (snd (validate_structure sample_library
      fresh_validator
      (Some (daily_spec ''test_dag''
         [bash_task ''a'' [''ghost''], bash_task ''b'' [''a'', ''phantom'']]))))) = []"
proof -
  let ?ts = "[bash_task ''a'' [''ghost''], bash_task ''b'' [''a'', ''phantom'']]"
  have "dep_edges ?ts = {(''a'', ''ghost''), (''b'', ''a''), (''b'', ''phantom'')}"
    by (auto simp: dep_edges_def bash_task_def deps_def)
  moreover have "acyclic ({} :: (string \<times> string) set)"
    by (simp add: acyclic_def)
  then have "acyclic {(''a'', ''ghost''), (''b'', ''a''), (''b'', ''phantom'')}"
    by (simp add: rtrancl_insert)
  ultimately have "acyclic (dep_edges (spec_tasks (daily_spec ''test_dag'' ?ts)))"
    by (simp add: spec_tasks_def daily_spec_def)
  then show ?thesis
    by (rule acyclic_no_circular_error)
qed

subsection \<open>Dangling references\<close>




subsection \<open>The valid flag\<close>

text \<open>
  C4. For every input of \<^verbatim>\<open>validate_syntax\<close> and of \<^verbatim>\<open>validate_structure\<close>, the \<^verbatim>\<open>valid\<close>
  flag of the returned result is true exactly when its error list is empty; the warnings
  play no part in it.
\<close>

theorem valid_iff_no_errors:
  "valid (fst (validate_syntax lib v dag_code))
     = (errors (fst (validate_syntax lib v dag_code)) = [])
   \<and> (\<forall>r. fst (validate_structure lib v so) = Inr r \<longrightarrow> valid r = (errors r = []))"
proof (intro conjI allI impI)
  show "valid (fst (validate_syntax lib v dag_code))
      = (errors (fst (validate_syntax lib v dag_code)) = [])"
    by (simp only: validate_syntax_build build_result_valid)
next
  fix r
  assume "fst (validate_structure lib v so) = Inr r"
  then have "r = build_result (snd (validate_structure lib v so))"
    by (rule structure_result)
  then show "valid r = (errors r = [])"
    by (simp only: build_result_valid)
qed

text \<open>C4 on a specification whose result has no error and one warning.\<close>

theorem valid_iff_no_errors_witness:
  "fst (validate_structure sample_library fresh_validator
      (Some (daily_spec ''test_dag'' [(bash_task ''a'' [])\<lparr>params := None\<rparr>])))
     = Inr \<lparr>valid = True, errors = [], warnings = [params_warning 0 ''a'']\<rparr>
   \<and> valid \<lparr>valid = True, errors = [], warnings = [params_warning 0 ''a'']\<rparr>
     = (errors \<lparr>valid = True, errors = [], warnings = [params_warning 0 ''a'']\<rparr> = [])"
proof -
  let ?ts = "[(bash_task ''a'' [])\<lparr>params := None\<rparr>]"
  let ?spec = "daily_spec ''test_dag'' ?ts"
  have ne: "\<not> spec_is_empty ?spec"
    by (simp add: spec_is_empty_def daily_spec_def)
  have b: "before_dependencies sample_library ?spec
      = \<lparr>self_errors = [], self_warnings = [params_warning 0 ''a'']\<rparr>"
    by (simp add: before_dependencies_def daily_spec_def bash_task_def sample_library_def
        validate_required_fields_def required_field_def validate_dag_id_def re_match_id_def
        id_char_def py_lower_def lower_char_def validate_schedule_def VALID_SCHEDULES_def
        validate_start_date_def iso_date_or_datetime_def iso_date_def is_digit_def dec_val_def
        days_in_month_def validate_tasks_def validate_task_def VALID_OPERATORS_def
        validate_connections_def validate_variables_def or_empty_def Let_def add_warning_def)
  have c: "has_circular_dependencies (recursion_budget sample_library) ?ts = Inr False"
    using has_circular_returns [of ?ts "recursion_budget sample_library"]
      dependency_names_bound [of ?ts]
    by (simp add: bash_task_def deps_def unbounded_has_circular_def build_graph_def
        unbounded_has_cycle.simps graph_get_def sample_library_def)
  have l: "check_task_deps ids ((bash_task ''a'' [])\<lparr>params := None\<rparr>) w = w" for ids w
    by (simp add: check_task_deps_def bash_task_def deps_def)
  have r: "fst (validate_structure sample_library fresh_validator (Some ?spec))
      = Inr \<lparr>valid = True, errors = [], warnings = [params_warning 0 ''a'']\<rparr>"
    unfolding structure_chain [OF ne] b
    by (simp add: daily_spec_def validate_dependencies_def c l build_result_def Let_def)
  show ?thesis
    using valid_iff_no_errors [of sample_library fresh_validator "[]" "Some ?spec"] r
    by simp
qed

subsection \<open>Empty inputs\<close>

text \<open>
  C5. For a source text that is empty or made of whitespace only, \<^verbatim>\<open>validate_syntax\<close>
  returns an invalid result with exactly one error, of type \<^verbatim>\<open>syntax\<close> and line 0, and
  no warning. The parser is not consulted: the result is the same for every library.
\<close>

theorem empty_source_single_syntax_error:
  assumes "\<forall>c\<in>set dag_code. py_isspace c"
  shows "fst (validate_syntax lib v dag_code)
           = \<lparr>valid = False, errors = [empty_code_error], warnings = []\<rparr>
         \<and> ftype empty_code_error = ''syntax'' \<and> line empty_code_error = Some 0"
  using strip_whitespace [OF assms]
  unfolding validate_syntax_def reset_eq
  by (simp add: Let_def add_error_def build_result_def empty_code_error_def)

text \<open>C5 on a source made of a space, a tab and a newline, and on the empty source.\<close>

theorem empty_source_single_syntax_error_witness:
  "fst (validate_syntax sample_library fresh_validator [CHR '' '', CHR 0x09, CHR 0x0A])
     = \<lparr>valid = False, errors = [empty_code_error], warnings = []\<rparr>
   \<and> fst (validate_syntax sample_library fresh_validator [])
     = \<lparr>valid = False, errors = [empty_code_error], warnings = []\<rparr>"
  using empty_source_single_syntax_error [of "[CHR '' '', CHR 0x09, CHR 0x0A]" sample_library fresh_validator]
    empty_source_single_syntax_error [of "[]" sample_library fresh_validator]
  by (simp add: py_isspace_def)

text \<open>
  C6. For a specification that is \<^verbatim>\<open>None\<close> or the empty dict, \<^verbatim>\<open>validate_structure\<close>
  returns a result with exactly one error, of type \<^verbatim>\<open>structure\<close> and field \<^verbatim>\<open>root\<close>, and
  no warning: no sub-check adds a finding.
\<close>

theorem empty_spec_single_root_error:
  assumes "so = None \<or> (\<exists>spec. so = Some spec \<and> spec_is_empty spec)"
  shows "fst (validate_structure lib v so)
           = Inr \<lparr>valid = False, errors = [root_error], warnings = []\<rparr>
         \<and> ftype root_error = ''structure'' \<and> field root_error = Some ''root''"
  using structure_root [OF assms, of lib v]
  by (simp add: root_error_def field_finding_def)

text \<open>C6 on the empty dict and on \<^verbatim>\<open>None\<close>.\<close>

theorem empty_spec_single_root_error_witness:
  "fst (validate_structure sample_library fresh_validator (Some empty_spec))
     = Inr \<lparr>valid = False, errors = [root_error], warnings = []\<rparr>
   \<and> fst (validate_structure sample_library fresh_validator None)
     = Inr \<lparr>valid = False, errors = [root_error], warnings = []\<rparr>"
  using empty_spec_single_root_error [of "Some empty_spec" sample_library fresh_validator]
    empty_spec_single_root_error [of None sample_library fresh_validator]
  by (simp add: spec_is_empty_def empty_spec_def)

subsection \<open>Start date\<close>




subsection \<open>Repeated calls\<close>

text \<open>
  C8. \<^verbatim>\<open>validate_structure\<close> does not depend on the state the instance is in: a call on a
  specification, then any sequence of other calls on the same instance, then a second
  call on the same specification, have the same outcome: the same result, or the same
  exception.
\<close>

theorem validate_structure_idempotent:
  "fst (validate_structure lib
          (fold (do_call lib) calls (snd (validate_structure lib v so))) so)
     = fst (validate_structure lib v so)"
  by (rule arg_cong [where f = fst, OF validate_structure_stateless])

subsection \<open>Parameter warnings\<close>




subsection \<open>Empty DAG id\<close>

text \<open>
  C10. When \<^verbatim>\<open>dag_id\<close> is the empty string, no error and no warning that the call
  reports, or leaves in the lists of the instance, is about the field \<^verbatim>\<open>dag_id\<close>: the
  required-field check sees a present, non-null value and the format check returns at
  once on a falsy id.
\<close>

theorem empty_dag_id_no_finding:
  assumes "dag_id spec = Present []"
  shows "filter about_dag_id (reported_errors (fst (validate_structure lib v (Some spec)))) = []
       \<and> filter about_dag_id (reported_warnings (fst (validate_structure lib v (Some spec)))) = []
       \<and> filter about_dag_id (self_errors (snd (validate_structure lib v (Some spec)))) = []
       \<and> filter about_dag_id (self_warnings (snd (validate_structure lib v (Some spec)))) = []"
  by (simp add: reported_errors_eq reported_warnings_eq dag_id_findings [OF assms])

text \<open>C10 on a specification whose \<^verbatim>\<open>dag_id\<close> is the empty string.\<close>

theorem empty_dag_id_no_finding_witness:
  "filter about_dag_id (reported_errors (fst (validate_structure sample_library fresh_validator
      (Some (daily_spec [] [bash_task ''a'' []]))))) = []
   \<and> filter about_dag_id (reported_warnings (fst (validate_structure sample_library
      fresh_validator (Some (daily_spec [] [bash_task ''a'' []]))))) = []
   \<and> filter about_dag_id (self_errors (snd (validate_structure sample_library fresh_validator
      (Some (daily_spec [] [bash_task ''a'' []]))))) = []
   \<and> filter about_dag_id (self_warnings (snd (validate_structure sample_library fresh_validator
      (Some (daily_spec [] [bash_task ''a'' []]))))) = []"
  using empty_dag_id_no_finding [of "daily_spec [] [bash_task ''a'' []]" sample_library fresh_validator]
  by (simp add: daily_spec_def)

end
